theory Spec2Isabelle
  imports Complex_Main "HOL-Library.Word"
begin

section \<open>Folderize: content-addressed placement of attachments\<close>

text \<open>
  A shallow embedding of \<^verbatim>\<open>src/organize.ts\<close> (classes \<^verbatim>\<open>DirectoryManager\<close> and
  \<^verbatim>\<open>FileOrganizer\<close>), of the earlier revision of the same file that reads the chunk
  size from the settings and prunes with \<^verbatim>\<open>findEmptyFolders\<close>, and of the chunk-size
  guard of the settings tab in \<^verbatim>\<open>main.ts\<close>.
\<close>

subsection \<open>Settings\<close>

datatype LogLevel = DEBUG | INFO | WARN | ERROR

text \<open>
  \<^verbatim>\<open>interface FolderizeSettings\<close>. The flag \<^verbatim>\<open>removeEmptyFolders\<close> is the field
  \<open>removeEmptyFolders_opt\<close>, since the method of \<^verbatim>\<open>DirectoryManager\<close> has the same
  name. The path depth is an integer here.
\<close>

record FolderizeSettings =
  attachmentPath :: string
  pathDepth :: int
  enableAutoOrganize :: bool
  removeEmptyFolders_opt :: bool
  logLevel :: LogLevel

subsection \<open>The digest object of the crypto library\<close>

type_synonym byte = "8 word"

text \<open>
  \<^verbatim>\<open>createHash("sha256")\<close> returns an object with \<^verbatim>\<open>update\<close> and \<^verbatim>\<open>digest\<close>. The
  library is not part of the repository: its three operations are a parameter of the
  model, over any type \<open>'h\<close> of digest states.
\<close>

record 'h hash_api =
  createHash :: 'h
  update :: "'h \<Rightarrow> byte list \<Rightarrow> 'h"
  digest :: "'h \<Rightarrow> byte list"

text \<open>
  The contract of a streaming digest for a function \<open>sha\<close> on byte strings: feeding
  the pieces one after the other gives the digest of their concatenation.
\<close>

definition streaming_digest :: "'h hash_api \<Rightarrow> (byte list \<Rightarrow> byte list) \<Rightarrow> bool" where
  "streaming_digest api sha \<longleftrightarrow>
     (\<forall>chunks. digest api (foldl (update api) (createHash api) chunks) = sha (concat chunks))"

subsection \<open>Numbers\<close>

text \<open>
  A JavaScript \<^verbatim>\<open>number\<close>: a finite value, \<^verbatim>\<open>NaN\<close>, or one of the two infinities, with
  the operators \<^verbatim>\<open>+\<close>, \<^verbatim>\<open><\<close> and \<^verbatim>\<open><=\<close> of the language (a comparison with \<^verbatim>\<open>NaN\<close>
  is false). A finite value is an exact rational here: neither the sign of zero nor the
  rounding of a sum to the next double is modelled. In the loop below the rounding
  matters only for a positive chunk size so small against the offset that
  \<^verbatim>\<open>offset + chunkSize\<close> rounds back to \<^verbatim>\<open>offset\<close>.
\<close>

datatype number = Finite rat | NaN | Infinity | NegInfinity

instantiation number :: "{plus, ord}"
begin

fun plus_number :: "number \<Rightarrow> number \<Rightarrow> number" where
  "Finite a + Finite b = Finite (a + b)"
| "NaN + y = NaN"
| "x + NaN = NaN"
| "Infinity + NegInfinity = NaN"
| "NegInfinity + Infinity = NaN"
| "Infinity + y = Infinity"
| "x + Infinity = Infinity"
| "NegInfinity + y = NegInfinity"
| "x + NegInfinity = NegInfinity"

fun less_number :: "number \<Rightarrow> number \<Rightarrow> bool" where
  "Finite a < Finite b \<longleftrightarrow> a < b"
| "NaN < y \<longleftrightarrow> False"
| "x < NaN \<longleftrightarrow> False"
| "x < NegInfinity \<longleftrightarrow> False"
| "Infinity < y \<longleftrightarrow> False"
| "NegInfinity < y \<longleftrightarrow> True"
| "x < Infinity \<longleftrightarrow> True"

fun less_eq_number :: "number \<Rightarrow> number \<Rightarrow> bool" where
  "Finite a \<le> Finite b \<longleftrightarrow> a \<le> b"
| "NaN \<le> y \<longleftrightarrow> False"
| "x \<le> NaN \<longleftrightarrow> False"
| "NegInfinity \<le> y \<longleftrightarrow> True"
| "x \<le> Infinity \<longleftrightarrow> True"
| "x \<le> NegInfinity \<longleftrightarrow> False"
| "Infinity \<le> y \<longleftrightarrow> False"

instance ..

end

subsection \<open>Checksum\<close>

text \<open>
  \<^verbatim>\<open>ArrayBuffer.prototype.slice(begin, end)\<close>. Each argument goes through
  \<^verbatim>\<open>ToIntegerOrInfinity\<close> (\<^verbatim>\<open>NaN\<close> becomes 0, a finite number is truncated towards
  zero); a negative index counts from the end, both are clamped to the length, and an
  empty range gives an empty buffer.
\<close>

definition trunc :: "rat \<Rightarrow> int" where
  "trunc q = (if q < 0 then \<lceil>q\<rceil> else \<lfloor>q\<rfloor>)"

definition relativeIndex :: "nat \<Rightarrow> number \<Rightarrow> nat" where
  "relativeIndex len x =
     (case x of
        NaN \<Rightarrow> 0
      | NegInfinity \<Rightarrow> 0
      | Infinity \<Rightarrow> len
      | Finite q \<Rightarrow>
          (let relative = trunc q
           in if relative < 0 then nat (max (int len + relative) 0)
              else nat (min relative (int len))))"

definition bufferSlice :: "'a list \<Rightarrow> number \<Rightarrow> number \<Rightarrow> 'a list" where
  "bufferSlice xs begin end =
     (let len = length xs;
          first = relativeIndex len begin;
          final = relativeIndex len end;
          newLen = final - first
      in take newLen (drop first xs))"

text \<open>
  The loop of \<^verbatim>\<open>cksum\<close> (\<^verbatim>\<open>calculateChecksum\<close> in the earlier revision):
  \<^verbatim>\<open>while (offset < data.byteLength) { hash.update(data.slice(offset, offset + chunkSize));
  offset += chunkSize; }\<close>. The chunk size is a \<^verbatim>\<open>number\<close>, and so is the offset.
  Nothing in the loop bounds the number of iterations, so a run that never leaves the
  loop is the value \<open>None\<close>.
\<close>

partial_function (option) cksum_loop ::
  "'h hash_api \<Rightarrow> byte list \<Rightarrow> number \<Rightarrow> number \<Rightarrow> 'h \<Rightarrow> 'h option" where
  "cksum_loop api data chunkSize offset hash =
     (if offset < Finite (of_nat (length data))
      then cksum_loop api data chunkSize (offset + chunkSize)
             (update api hash (bufferSlice data offset (offset + chunkSize)))
      else Some hash)"

declare cksum_loop.simps [code]

text \<open>\<^verbatim>\<open>cksum\<close> on the bytes that \<^verbatim>\<open>readBinary\<close> returned.\<close>

definition cksum_bytes :: "'h hash_api \<Rightarrow> byte list \<Rightarrow> number \<Rightarrow> byte list option" where
  "cksum_bytes api data chunkSize =
     map_option (digest api) (cksum_loop api data chunkSize (Finite 0) (createHash api))"

definition HASH_CHUNK_SIZE :: number where
  "HASH_CHUNK_SIZE = Finite (4 * 1024)"

subsection \<open>Hash to path\<close>

definition hexDigit :: "nat \<Rightarrow> char" where
  "hexDigit n = ''0123456789abcdef'' ! (n mod 16)"

text \<open>\<^verbatim>\<open>Number.prototype.toString(16)\<close> on a non-negative integer.\<close>

fun toString16 :: "nat \<Rightarrow> string" where
  "toString16 n = (if n < 16 then [hexDigit n] else toString16 (n div 16) @ [hexDigit (n mod 16)])"

declare toString16.simps [simp del]

text \<open>\<^verbatim>\<open>String.prototype.padStart(targetLength, padString)\<close> with a one-character pad.\<close>

definition padStart :: "nat \<Rightarrow> char \<Rightarrow> string \<Rightarrow> string" where
  "padStart targetLength pad s = replicate (targetLength - length s) pad @ s"

text \<open>\<^verbatim>\<open>Array.prototype.join(sep)\<close>.\<close>

fun join :: "string \<Rightarrow> string list \<Rightarrow> string" where
  "join sep [] = []"
| "join sep [p] = p"
| "join sep (p # q # ps) = p @ sep @ join sep (q # ps)"

text \<open>
  The loop of \<^verbatim>\<open>generatePath\<close>:
  \<^verbatim>\<open>for (let i = 0; i < settings.pathDepth && i < checksum.length; i++)
  parts.push(checksum[i].toString(16).padStart(2, "0"))\<close>.
\<close>

function generatePath_loop :: "byte list \<Rightarrow> int \<Rightarrow> nat \<Rightarrow> string list \<Rightarrow> string list" where
  "generatePath_loop checksum depth i parts =
     (if int i < depth \<and> i < length checksum
      then generatePath_loop checksum depth (i + 1)
             (parts @ [padStart 2 (CHR ''0'') (toString16 (unat (checksum ! i)))])
      else parts)"
  by pat_completeness auto
termination
  by (relation "measure (\<lambda>(checksum, depth, i, parts). length checksum - i)") auto

declare generatePath_loop.simps [simp del]

definition generatePath :: "byte list \<Rightarrow> ('a FolderizeSettings_scheme) \<Rightarrow> string" where
  "generatePath checksum settings =
     join ''/'' (generatePath_loop checksum (pathDepth settings) 0 [attachmentPath settings])"

subsection \<open>Paths\<close>

text \<open>\<^verbatim>\<open>String.prototype.split(sep)\<close> with a one-character separator.\<close>

fun splitOn :: "char \<Rightarrow> string \<Rightarrow> string list" where
  "splitOn sep [] = [[]]"
| "splitOn sep (c # cs) =
     (if c = sep then [] # splitOn sep cs
      else (case splitOn sep cs of [] \<Rightarrow> [[c]] | w # ws \<Rightarrow> (c # w) # ws))"

text \<open>
  \<^verbatim>\<open>path.basename\<close> and \<^verbatim>\<open>path.dirname\<close> of Node (POSIX flavour). Both scan the
  string from its end: trailing slashes are skipped, the last component is what lies
  between them and the slash before it. \<^verbatim>\<open>dirname\<close> does not look at the first
  character while scanning; it gives \<^verbatim>\<open>"."\<close> or \<^verbatim>\<open>"/"\<close> when there is no directory part.
\<close>

definition basename :: "string \<Rightarrow> string" where
  "basename p = rev (takeWhile (\<lambda>c. c \<noteq> CHR ''/'') (dropWhile (\<lambda>c. c = CHR ''/'') (rev p)))"

definition dirname :: "string \<Rightarrow> string" where
  "dirname p =
     (if p = [] then ''.''
      else let hasRoot = (hd p = CHR ''/'');
               scanned = rev (tl p);
               rest = dropWhile (\<lambda>c. c \<noteq> CHR ''/'') (dropWhile (\<lambda>c. c = CHR ''/'') scanned)
           in if rest = [] then (if hasRoot then ''/'' else ''.'')
              else if hasRoot \<and> length rest = 1 then ''//''
              else take (length rest) p)"

subsection \<open>The vault\<close>

text \<open>
  The storage tree of the host application and the operations of its vault and adapter
  that the code calls. The host is not part of the repository; this subsection is the
  model of it that the functions of the repository run against.

  A \<^verbatim>\<open>TFile\<close> carries its name and the bytes that \<^verbatim>\<open>adapter.readBinary\<close> returns for
  it (\<open>None\<close> when the read fails); a \<^verbatim>\<open>TFolder\<close> carries its name and its
  \<^verbatim>\<open>children\<close> array, in order. The \<^verbatim>\<open>path\<close> of a node is the path of its folder, a
  slash and its name; the children of the vault root have their name as path.
\<close>

datatype node = TFile string "byte list option" | TFolder string "node list"

fun node_name :: "node \<Rightarrow> string" where
  "node_name (TFile nm c) = nm"
| "node_name (TFolder nm cs) = nm"

definition childPath :: "string \<Rightarrow> string \<Rightarrow> string" where
  "childPath folderPath nm = (if folderPath = ''/'' then nm else folderPath @ ''/'' @ nm)"

datatype error = ReadFault | StorageFault

text \<open>
  What the user is shown (\<^verbatim>\<open>new Notice(...)\<close>): \<^verbatim>\<open>"Organizing attachments..."\<close>,
  \<^verbatim>\<open>"Attachment folder not found"\<close>, \<^verbatim>\<open>"Organized n attachments"\<close>,
  \<^verbatim>\<open>"Removed n empty directories"\<close> and, in the earlier revision,
  \<^verbatim>\<open>"Error organizing <name>: ..."\<close>.
\<close>

datatype notice =
  Organizing | NotFound | Organized nat | Removed nat
  | ErrorOrganizingFile string error

text \<open>The calls issued to the host that read file contents or change the tree.\<close>

datatype call =
  ReadBinary string | CreateFolder string | Rename string string | Delete string node

text \<open>
  The host: the children of the vault root, the paths on which the host refuses to
  create, rename or delete, and what has been shown and issued so far.
\<close>

record host =
  vault :: "node list"
  denied :: "string list"
  notices :: "notice list"
  calls :: "call list"

type_synonym 'a result = "(error + 'a) \<times> host"

definition notify :: "notice \<Rightarrow> host \<Rightarrow> host" where
  "notify n h = h\<lparr>notices := notices h @ [n]\<rparr>"

definition issue :: "call \<Rightarrow> host \<Rightarrow> host" where
  "issue c h = h\<lparr>calls := calls h @ [c]\<rparr>"

text \<open>Resolution of a path, one name after the other from the vault root.\<close>

fun lookup :: "node list \<Rightarrow> string list \<Rightarrow> node option" where
  "lookup cs [] = None"
| "lookup cs [s] = find (\<lambda>n. node_name n = s) cs"
| "lookup cs (s # ss) =
     (case find (\<lambda>n. node_name n = s) cs of
        Some (TFolder nm sub) \<Rightarrow> lookup sub ss
      | _ \<Rightarrow> None)"

text \<open>The children of the folder at a path replaced by \<open>f\<close> of them; \<open>[]\<close> is the vault root.\<close>

fun modify :: "string list \<Rightarrow> (node list \<Rightarrow> node list) \<Rightarrow> node list \<Rightarrow> node list" where
  "modify [] f cs = f cs"
| "modify (s # ss) f [] = []"
| "modify (s # ss) f (TFile nm c # cs) =
     (if nm = s then TFile nm c # cs else TFile nm c # modify (s # ss) f cs)"
| "modify (s # ss) f (TFolder nm sub # cs) =
     (if nm = s then TFolder nm (modify ss f sub) # cs
      else TFolder nm sub # modify (s # ss) f cs)"

fun remove_named :: "string \<Rightarrow> node list \<Rightarrow> node list" where
  "remove_named s [] = []"
| "remove_named s (n # cs) = (if node_name n = s then cs else n # remove_named s cs)"

definition getAbstractFileByPath :: "host \<Rightarrow> string \<Rightarrow> node option" where
  "getAbstractFileByPath h p = lookup (vault h) (splitOn (CHR ''/'') p)"

definition exists_path :: "host \<Rightarrow> string \<Rightarrow> bool" where
  "exists_path h p \<longleftrightarrow> getAbstractFileByPath h p \<noteq> None"

definition is_folder_at :: "host \<Rightarrow> string list \<Rightarrow> bool" where
  "is_folder_at h segs \<longleftrightarrow>
     (segs = [] \<or> (case lookup (vault h) segs of Some (TFolder nm sub) \<Rightarrow> True | _ \<Rightarrow> False))"

definition readBinary :: "host \<Rightarrow> string \<Rightarrow> error + byte list" where
  "readBinary h p =
     (case getAbstractFileByPath h p of
        Some (TFile nm (Some data)) \<Rightarrow> Inr data
      | _ \<Rightarrow> Inl ReadFault)"

text \<open>
  \<^verbatim>\<open>vault.createFolder\<close>: refused on a denied path, on a path that exists, on an empty
  name and below a folder that does not exist; otherwise the new folder is the last
  child of its parent.
\<close>

definition createFolder :: "string \<Rightarrow> host \<Rightarrow> unit result" where
  "createFolder p h =
     (let h1 = issue (CreateFolder p) h; segs = splitOn (CHR ''/'') p
      in if p \<in> set (denied h) \<or> exists_path h p \<or> last segs = [] \<or> \<not> is_folder_at h (butlast segs)
         then (Inl StorageFault, h1)
         else (Inr (), h1\<lparr>vault := modify (butlast segs) (\<lambda>cs. cs @ [TFolder (last segs) []]) (vault h)\<rparr>))"

text \<open>
  \<^verbatim>\<open>vault.rename\<close> of a file: refused on a denied path, when the file is not in the
  tree, when the new path is taken, has an empty name or lies below a folder that does
  not exist; otherwise the file leaves its folder and becomes the last child of the new
  one, under its new name.
\<close>

definition rename :: "string \<Rightarrow> string \<Rightarrow> host \<Rightarrow> unit result" where
  "rename file newPath h =
     (let h1 = issue (Rename file newPath) h;
          src = splitOn (CHR ''/'') file;
          dst = splitOn (CHR ''/'') newPath
      in case getAbstractFileByPath h file of
           Some (TFile nm c) \<Rightarrow>
             if file \<in> set (denied h) \<or> newPath \<in> set (denied h) \<or> exists_path h newPath
                \<or> last dst = [] \<or> \<not> is_folder_at h (butlast dst)
             then (Inl StorageFault, h1)
             else (Inr (), h1\<lparr>vault :=
                     modify (butlast dst) (\<lambda>cs. cs @ [TFile (last dst) c])
                       (modify (butlast src) (remove_named (last src)) (vault h))\<rparr>)
         | _ \<Rightarrow> (Inl StorageFault, h1))"

text \<open>
  \<^verbatim>\<open>vault.delete\<close> of a folder object, given by its path and the object: refused on a
  denied path and when nothing is at the path any more; otherwise the folder leaves the
  \<^verbatim>\<open>children\<close> array of its parent, with all it holds.
\<close>

definition delete :: "string \<Rightarrow> node \<Rightarrow> host \<Rightarrow> unit result" where
  "delete p folder h =
     (let h1 = issue (Delete p folder) h; segs = splitOn (CHR ''/'') p
      in if p \<in> set (denied h) \<or> \<not> exists_path h p then (Inl StorageFault, h1)
         else (Inr (), h1\<lparr>vault := modify (butlast segs) (remove_named (last segs)) (vault h)\<rparr>))"

subsection \<open>DirectoryManager\<close>

text \<open>
  \<^verbatim>\<open>mkdirs\<close>: the loop over \<^verbatim>\<open>dir.split("/")\<close> with the accumulated prefix
  \<^verbatim>\<open>currentPath\<close>; an empty \<^verbatim>\<open>currentPath\<close> is falsy.
\<close>

fun mkdirs_loop :: "string list \<Rightarrow> string \<Rightarrow> host \<Rightarrow> unit result" where
  "mkdirs_loop [] currentPath h = (Inr (), h)"
| "mkdirs_loop (part # parts) currentPath h =
     (let currentPath' = (if currentPath \<noteq> [] then currentPath @ ''/'' @ part else part)
      in if \<not> exists_path h currentPath'
         then (case createFolder currentPath' h of
                 (Inl e, h') \<Rightarrow> (Inl e, h')
               | (Inr u, h') \<Rightarrow> mkdirs_loop parts currentPath' h')
         else mkdirs_loop parts currentPath' h)"

definition mkdirs :: "string \<Rightarrow> host \<Rightarrow> unit result" where
  "mkdirs dir h = mkdirs_loop (splitOn (CHR ''/'') dir) [] h"

text \<open>
  \<^verbatim>\<open>vault.delete(child)\<close> seen from the folder that holds \<open>child\<close> at index \<open>i\<close>: the
  host takes the child out of the \<^verbatim>\<open>children\<close> array in place, so the later elements
  move one index down.
\<close>

definition deleteChild :: "nat \<Rightarrow> node list \<Rightarrow> node list" where
  "deleteChild i cs = take i cs @ drop (Suc i) cs"

text \<open>
  \<^verbatim>\<open>removeEmptyFolders(folder)\<close>. The \<^verbatim>\<open>for (const child of folder.children)\<close> loop
  reads the live array by index: \<open>i\<close> is the index of the array iterator and \<open>cs\<close> the
  array as it is now. The recursive call works on the array of the child; the child is
  deleted when that array is empty afterwards, and the iterator moves on to index
  \<open>i + 1\<close> in either case. The result is the count (or the fault of a refused delete),
  the array as the walk leaves it, and the calls issued.
\<close>

function removeEmptyFolders ::
  "string list \<Rightarrow> string \<Rightarrow> nat \<Rightarrow> nat \<Rightarrow> node list \<times> call list
     \<Rightarrow> (error + nat) \<times> node list \<times> call list" where
  "removeEmptyFolders den folderPath i removedCount (cs, issued) =
     (if i < length cs then
        (case cs ! i of
           TFile nm c \<Rightarrow> removeEmptyFolders den folderPath (i + 1) removedCount (cs, issued)
         | TFolder nm sub \<Rightarrow>
             (case removeEmptyFolders den (childPath folderPath nm) 0 0 (sub, issued) of
                (Inl e, sub', issued') \<Rightarrow> (Inl e, cs[i := TFolder nm sub'], issued')
              | (Inr k, sub', issued') \<Rightarrow>
                  if length sub' = 0 then
                    (if childPath folderPath nm \<in> set den
                     then (Inl StorageFault, cs[i := TFolder nm sub'],
                           issued' @ [Delete (childPath folderPath nm) (TFolder nm sub')])
                     else removeEmptyFolders den folderPath (i + 1) (removedCount + k + 1)
                            (deleteChild i cs,
                             issued' @ [Delete (childPath folderPath nm) (TFolder nm sub')]))
                  else removeEmptyFolders den folderPath (i + 1) (removedCount + k)
                         (cs[i := TFolder nm sub'], issued')))
      else (Inr removedCount, cs, issued))"
  by pat_completeness auto
termination
proof (relation "measure (\<lambda>(den, folderPath, i, removedCount, cs, issued). size_list size (drop i cs))")
  show "wf (measure (\<lambda>(den, folderPath, i, removedCount, cs, issued). size_list size (drop i cs)))"
    by simp
next
  fix den :: "string list" and folderPath :: string and i removedCount :: nat
    and cs :: "node list" and issued :: "call list" and nm c
  assume "i < length cs"
  then have "drop i cs = cs ! i # drop (Suc i) cs"
    by (simp add: Cons_nth_drop_Suc)
  then show "((den, folderPath, i + 1, removedCount, cs, issued),
              (den, folderPath, i, removedCount, cs, issued))
        \<in> measure (\<lambda>(den, folderPath, i, removedCount, cs, issued). size_list size (drop i cs))"
    by simp
next
  fix den :: "string list" and folderPath :: string and i removedCount :: nat
    and cs :: "node list" and issued :: "call list" and nm sub
  assume "i < length cs" "cs ! i = TFolder nm sub"
  then have "drop i cs = TFolder nm sub # drop (Suc i) cs"
    using Cons_nth_drop_Suc [of i cs] by simp
  then show "((den, childPath folderPath nm, 0, 0, sub, issued),
              (den, folderPath, i, removedCount, cs, issued))
        \<in> measure (\<lambda>(den, folderPath, i, removedCount, cs, issued). size_list size (drop i cs))"
    by simp
next
  fix den :: "string list" and folderPath :: string and i removedCount :: nat
    and cs :: "node list" and issued :: "call list" and nm sub k sub' issued'
  assume "i < length cs"
  then have "drop i cs = cs ! i # drop (Suc i) cs"
    by (simp add: Cons_nth_drop_Suc)
  moreover have "drop (Suc i) (deleteChild i cs) = drop (Suc (Suc i)) cs"
    using \<open>i < length cs\<close> by (simp add: deleteChild_def)
  moreover have "size_list size (drop (Suc (Suc i)) cs) \<le> size_list size (drop (Suc i) cs)"
    by (cases "Suc i < length cs") (simp_all add: Cons_nth_drop_Suc [symmetric])
  ultimately show "((den, folderPath, i + 1, removedCount + k + 1, deleteChild i cs,
               issued' @ [Delete (childPath folderPath nm) (TFolder nm sub')]),
              (den, folderPath, i, removedCount, cs, issued))
        \<in> measure (\<lambda>(den, folderPath, i, removedCount, cs, issued). size_list size (drop i cs))"
    by simp
next
  fix den :: "string list" and folderPath :: string and i removedCount :: nat
    and cs :: "node list" and issued :: "call list" and nm sub k sub' issued'
  assume "i < length cs"
  then have "drop i cs = cs ! i # drop (Suc i) cs"
    by (simp add: Cons_nth_drop_Suc)
  then show "((den, folderPath, i + 1, removedCount + k, cs[i := TFolder nm sub'], issued'),
              (den, folderPath, i, removedCount, cs, issued))
        \<in> measure (\<lambda>(den, folderPath, i, removedCount, cs, issued). size_list size (drop i cs))"
    by simp
qed

declare removeEmptyFolders.simps [simp del]

text \<open>
  \<^verbatim>\<open>cleanEmptyDirectories(attachmentPath)\<close>: nothing happens unless the path resolves
  to a folder; otherwise the walk runs on the \<^verbatim>\<open>children\<close> of that folder and a notice
  tells how many folders were removed, if any.
\<close>

definition cleanEmptyDirectories :: "string \<Rightarrow> host \<Rightarrow> unit result" where
  "cleanEmptyDirectories attachmentPath' h =
     (case getAbstractFileByPath h attachmentPath' of
        Some (TFolder nm cs) \<Rightarrow>
          (case removeEmptyFolders (denied h) attachmentPath' 0 0 (cs, calls h) of
             (r, cs', issued) \<Rightarrow>
               (let h1 = h\<lparr>vault := modify (splitOn (CHR ''/'') attachmentPath') (\<lambda>old. cs') (vault h),
                            calls := issued\<rparr>
                in case r of
                     Inl e \<Rightarrow> (Inl e, h1)
                   | Inr removedCount \<Rightarrow>
                       (Inr (), if removedCount > 0 then notify (Removed removedCount) h1 else h1)))
      | _ \<Rightarrow> (Inr (), h))"

subsection \<open>FileOrganizer\<close>

text \<open>
  \<^verbatim>\<open>cksum(filePath, chunkSize)\<close>: a failed read is the fault \<open>ReadFault\<close>, a loop
  that does not end is \<open>None\<close>.
\<close>

definition cksum :: "'h hash_api \<Rightarrow> string \<Rightarrow> number \<Rightarrow> host \<Rightarrow> (byte list) result option" where
  "cksum api filePath chunkSize h =
     (let h1 = issue (ReadBinary filePath) h
      in case readBinary h filePath of
           Inl e \<Rightarrow> Some (Inl e, h1)
         | Inr data \<Rightarrow>
             (case cksum_bytes api data chunkSize of
                None \<Rightarrow> None
              | Some checksum \<Rightarrow> Some (Inr checksum, h1)))"

text \<open>\<^verbatim>\<open>organizeFile(file, settings)\<close>; a \<^verbatim>\<open>TFile\<close> object is known by its \<^verbatim>\<open>path\<close>.\<close>

definition organizeFile ::
  "'h hash_api \<Rightarrow> string \<Rightarrow> 'a FolderizeSettings_scheme \<Rightarrow> host \<Rightarrow> unit result option" where
  "organizeFile api file settings h =
     (case cksum api file HASH_CHUNK_SIZE h of
        None \<Rightarrow> None
      | Some (Inl e, h1) \<Rightarrow> Some (Inl e, h1)
      | Some (Inr checksum, h1) \<Rightarrow>
          (let hivePath = generatePath checksum settings;
               filename = basename file;
               newPath = hivePath @ ''/'' @ filename
           in if file = newPath then Some (Inr (), h1)
              else (let dir = dirname newPath
                    in case mkdirs dir h1 of
                         (Inl e, h2) \<Rightarrow> Some (Inl e, h2)
                       | (Inr u, h2) \<Rightarrow> Some (rename file newPath h2))))"

text \<open>\<^verbatim>\<open>getFilesInFolder(folder)\<close>, given the path of the folder and its children.\<close>

fun getFilesInFolder :: "string \<Rightarrow> node list \<Rightarrow> string list" where
  "getFilesInFolder folderPath [] = []"
| "getFilesInFolder folderPath (TFile nm c # cs) =
     childPath folderPath nm # getFilesInFolder folderPath cs"
| "getFilesInFolder folderPath (TFolder nm sub # cs) =
     getFilesInFolder (childPath folderPath nm) sub @ getFilesInFolder folderPath cs"

text \<open>
  The loop \<^verbatim>\<open>for (const file of files) { await this.organizeFile(file, settings);
  processedCount++; }\<close> of \<^verbatim>\<open>organizeAttachments\<close>. Nothing catches a fault of
  \<^verbatim>\<open>organizeFile\<close>: it ends the loop and the method.
\<close>

fun organize_loop ::
  "'h hash_api \<Rightarrow> 'a FolderizeSettings_scheme \<Rightarrow> string list \<Rightarrow> nat \<Rightarrow> host \<Rightarrow> nat result option" where
  "organize_loop api settings [] processedCount h = Some (Inr processedCount, h)"
| "organize_loop api settings (file # files) processedCount h =
     (case organizeFile api file settings h of
        None \<Rightarrow> None
      | Some (Inl e, h') \<Rightarrow> Some (Inl e, h')
      | Some (Inr u, h') \<Rightarrow> organize_loop api settings files (processedCount + 1) h')"

definition organizeAttachments ::
  "'h hash_api \<Rightarrow> 'a FolderizeSettings_scheme \<Rightarrow> host \<Rightarrow> unit result option" where
  "organizeAttachments api settings h =
     (let h0 = notify Organizing h
      in case getAbstractFileByPath h0 (attachmentPath settings) of
           Some (TFolder nm cs) \<Rightarrow>
             (let files = getFilesInFolder (attachmentPath settings) cs
              in case organize_loop api settings files 0 h0 of
                   None \<Rightarrow> None
                 | Some (Inl e, h1) \<Rightarrow> Some (Inl e, h1)
                 | Some (Inr processedCount, h1) \<Rightarrow>
                     (let h2 = notify (Organized processedCount) h1
                      in if removeEmptyFolders_opt settings
                         then Some (cleanEmptyDirectories (attachmentPath settings) h2)
                         else Some (Inr (), h2)))
         | _ \<Rightarrow> Some (Inr (), notify NotFound h0))"

subsection \<open>The earlier revision\<close>

text \<open>
  The earlier revision of \<^verbatim>\<open>organize.ts\<close> keeps the chunk size in the settings, catches
  every fault inside \<^verbatim>\<open>organizeFile\<close>, and prunes in two steps: \<^verbatim>\<open>findEmptyFolders\<close>
  lists the folders to remove without touching the tree, then each one is deleted, a
  refused delete being caught and skipped.
\<close>

record FolderizeSettings_prev = FolderizeSettings +
  chunkSize :: number

definition calculateChecksum ::
  "'h hash_api \<Rightarrow> string \<Rightarrow> number \<Rightarrow> host \<Rightarrow> (byte list) result option" where
  "calculateChecksum api filePath chunkSize' h = cksum api filePath chunkSize' h"

definition createDirectoryRecursive :: "string \<Rightarrow> host \<Rightarrow> unit result" where
  "createDirectoryRecursive dirPath h = mkdirs_loop (splitOn (CHR ''/'') dirPath) [] h"

definition organizeFile_prev ::
  "'h hash_api \<Rightarrow> string \<Rightarrow> 'a FolderizeSettings_prev_scheme \<Rightarrow> host \<Rightarrow> host option" where
  "organizeFile_prev api file settings h =
     (case calculateChecksum api file (chunkSize settings) h of
        None \<Rightarrow> None
      | Some (Inl e, h1) \<Rightarrow> Some (notify (ErrorOrganizingFile (basename file) e) h1)
      | Some (Inr checksum, h1) \<Rightarrow>
          (let hivePath = generatePath checksum settings;
               fileName = basename file;
               newPath = hivePath @ ''/'' @ fileName
           in if file = newPath then Some h1
              else (let dir = dirname newPath
                    in case (if \<not> exists_path h1 dir then createDirectoryRecursive dir h1
                             else (Inr (), h1)) of
                         (Inl e, h2) \<Rightarrow> Some (notify (ErrorOrganizingFile (basename file) e) h2)
                       | (Inr u, h2) \<Rightarrow>
                           (case rename file newPath h2 of
                              (Inl e, h3) \<Rightarrow> Some (notify (ErrorOrganizingFile (basename file) e) h3)
                            | (Inr u', h3) \<Rightarrow> Some h3))))"

fun is_TFile :: "node \<Rightarrow> bool" where
  "is_TFile (TFile nm c) = True"
| "is_TFile (TFolder nm cs) = False"

text \<open>
  \<^verbatim>\<open>findEmptyFolders(folder)\<close>: the loop over the children with the list
  \<^verbatim>\<open>emptyFolders\<close> built so far. A folder object in the list is known by its path and
  kept with what it holds.
\<close>

fun findEmptyFolders ::
  "string \<Rightarrow> node list \<Rightarrow> (string \<times> node) list \<Rightarrow> (string \<times> node) list" where
  "findEmptyFolders folderPath [] emptyFolders = emptyFolders"
| "findEmptyFolders folderPath (TFile nm c # cs) emptyFolders =
     findEmptyFolders folderPath cs emptyFolders"
| "findEmptyFolders folderPath (TFolder nm sub # cs) emptyFolders =
     (let p = childPath folderPath nm;
          emptyFolders1 = emptyFolders @ findEmptyFolders p sub [];
          hasFiles = list_ex is_TFile sub;
          hasNonEmptyFolders =
            list_ex (\<lambda>c. \<not> is_TFile c \<and> (childPath p (node_name c), c) \<notin> set emptyFolders1) sub
      in findEmptyFolders folderPath cs
           (if \<not> hasFiles \<and> \<not> hasNonEmptyFolders then emptyFolders1 @ [(p, TFolder nm sub)]
            else emptyFolders1))"

text \<open>
  The loop \<^verbatim>\<open>for (const folder of emptyFolders.reverse()) { try { await
  this.app.vault.delete(folder); removedCount++; } catch (error) { ... } }\<close>.
\<close>

fun delete_loop :: "(string \<times> node) list \<Rightarrow> nat \<Rightarrow> host \<Rightarrow> nat \<times> host" where
  "delete_loop [] removedCount h = (removedCount, h)"
| "delete_loop ((p, folder) # rest) removedCount h =
     (case delete p folder h of
        (Inl e, h') \<Rightarrow> delete_loop rest removedCount h'
      | (Inr u, h') \<Rightarrow> delete_loop rest (removedCount + 1) h')"

definition cleanEmptyDirectories_prev :: "'a FolderizeSettings_prev_scheme \<Rightarrow> host \<Rightarrow> host" where
  "cleanEmptyDirectories_prev settings h =
     (case getAbstractFileByPath h (attachmentPath settings) of
        Some (TFolder nm cs) \<Rightarrow>
          (let emptyFolders = findEmptyFolders (attachmentPath settings) cs []
           in case delete_loop (rev emptyFolders) 0 h of
                (removedCount, h') \<Rightarrow>
                  if removedCount > 0 then notify (Removed removedCount) h' else h')
      | _ \<Rightarrow> h)"

text \<open>
  \<^verbatim>\<open>organizeAttachments\<close> of the earlier revision, with \<^verbatim>\<open>getAllFiles\<close> for
  \<^verbatim>\<open>getFilesInFolder\<close>. Every call inside its \<^verbatim>\<open>try\<close> block catches its own faults,
  so its \<^verbatim>\<open>catch\<close> block is never entered; a file whose \<^verbatim>\<open>organizeFile\<close> failed is
  counted like the others.
\<close>

definition getAllFiles :: "string \<Rightarrow> node list \<Rightarrow> string list" where
  "getAllFiles folderPath cs = getFilesInFolder folderPath cs"

fun organize_loop_prev ::
  "'h hash_api \<Rightarrow> 'a FolderizeSettings_prev_scheme \<Rightarrow> string list \<Rightarrow> nat \<Rightarrow> host
     \<Rightarrow> (nat \<times> host) option" where
  "organize_loop_prev api settings [] processedCount h = Some (processedCount, h)"
| "organize_loop_prev api settings (file # files) processedCount h =
     (case organizeFile_prev api file settings h of
        None \<Rightarrow> None
      | Some h' \<Rightarrow> organize_loop_prev api settings files (processedCount + 1) h')"

definition organizeAttachments_prev ::
  "'h hash_api \<Rightarrow> 'a FolderizeSettings_prev_scheme \<Rightarrow> host \<Rightarrow> host option" where
  "organizeAttachments_prev api settings h =
     (let h0 = notify Organizing h
      in case getAbstractFileByPath h0 (attachmentPath settings) of
           Some (TFolder nm cs) \<Rightarrow>
             (let files = getAllFiles (attachmentPath settings) cs
              in case organize_loop_prev api settings files 0 h0 of
                   None \<Rightarrow> None
                 | Some (processedCount, h1) \<Rightarrow>
                     (let h2 = notify (Organized processedCount) h1
                      in if removeEmptyFolders_opt settings
                         then Some (cleanEmptyDirectories_prev settings h2)
                         else Some h2))
         | _ \<Rightarrow> Some (notify NotFound h0))"


subsection \<open>Observations used in the statements\<close>

text \<open>The two hexadecimal digits of a byte, high digit first.\<close>

definition hex_pair :: "byte \<Rightarrow> string" where
  "hex_pair b = [hexDigit (unat b div 16), hexDigit (unat b mod 16)]"

text \<open>Every file below a folder, with its path and its content, in the order of the tree.\<close>

fun fileNodes :: "string \<Rightarrow> node list \<Rightarrow> (string \<times> byte list option) list" where
  "fileNodes folderPath [] = []"
| "fileNodes folderPath (TFile nm c # cs) = (childPath folderPath nm, c) # fileNodes folderPath cs"
| "fileNodes folderPath (TFolder nm sub # cs) =
     fileNodes (childPath folderPath nm) sub @ fileNodes folderPath cs"


text \<open>A call that deletes a folder which holds nothing.\<close>

fun deletes_empty_folder :: "call \<Rightarrow> bool" where
  "deletes_empty_folder (Delete p (TFolder nm [])) = True"
| "deletes_empty_folder c = False"

text \<open>The calls issued since \<open>issued\<close> are all deletes of folders that hold nothing.\<close>

definition only_empty_deletes :: "call list \<Rightarrow> call list \<Rightarrow> bool" where
  "only_empty_deletes issued issued' \<longleftrightarrow>
     (\<exists>new. issued' = issued @ new \<and> list_all deletes_empty_folder new)"

text \<open>A node below which there is no file.\<close>

definition holds_no_file :: "node \<Rightarrow> bool" where
  "holds_no_file n \<longleftrightarrow> (\<forall>fp. fileNodes fp [n] = [])"

text \<open>The path \<open>q\<close> lies below the folder path \<open>fp\<close>.\<close>

definition path_below :: "string \<Rightarrow> string \<Rightarrow> bool" where
  "path_below fp q \<longleftrightarrow> (\<exists>rest. q = fp @ ''/'' @ rest)"

text \<open>
  A tree as a file system has it: no name is empty or holds a slash, and no two
  children of a folder have the same name.
\<close>

definition ok_name :: "string \<Rightarrow> bool" where
  "ok_name nm \<longleftrightarrow> nm \<noteq> [] \<and> CHR ''/'' \<notin> set nm"

fun wf_nodes :: "node list \<Rightarrow> bool" where
  "wf_nodes [] = True"
| "wf_nodes (TFile nm c # cs) = (ok_name nm \<and> nm \<notin> node_name ` set cs \<and> wf_nodes cs)"
| "wf_nodes (TFolder nm sub # cs) =
     (ok_name nm \<and> nm \<notin> node_name ` set cs \<and> wf_nodes sub \<and> wf_nodes cs)"

text \<open>Nothing is at the path, or a node below which there is no file.\<close>

definition free_at :: "node list \<Rightarrow> string list \<Rightarrow> bool" where
  "free_at v segs \<longleftrightarrow> (case lookup v segs of None \<Rightarrow> True | Some n \<Rightarrow> holds_no_file n)"

text \<open>The tree without the node at the path, as \<open>delete\<close> leaves it.\<close>

definition remove_at :: "string list \<Rightarrow> node list \<Rightarrow> node list" where
  "remove_at segs v = modify (butlast segs) (remove_named (last segs)) v"

text \<open>
  \<^verbatim>\<open>organizeFile\<close> on each file of the list, one after the other, each call returning
  normally: the host after the last call, \<open>None\<close> when a call faults or does not return.
\<close>

fun organized_in_order ::
  "'h hash_api \<Rightarrow> 'a FolderizeSettings_scheme \<Rightarrow> string list \<Rightarrow> host \<Rightarrow> host option" where
  "organized_in_order api settings [] h = Some h"
| "organized_in_order api settings (f # fs) h =
     (case organizeFile api f settings h of
        Some (Inr u, h') \<Rightarrow> organized_in_order api settings fs h'
      | _ \<Rightarrow> None)"

text \<open>
  Somewhere below there is a folder under which there is no file: a folder with no file
  children and no subfolder that holds a file.
\<close>

fun has_prunable :: "node list \<Rightarrow> bool" where
  "has_prunable [] = False"
| "has_prunable (TFile nm c # cs) = has_prunable cs"
| "has_prunable (TFolder nm sub # cs) =
     (fileNodes [] sub = [] \<or> has_prunable sub \<or> has_prunable cs)"

text \<open>The tree without its folders under which there is no file.\<close>

fun prune :: "node list \<Rightarrow> node list" where
  "prune [] = []"
| "prune (TFile nm c # cs) = TFile nm c # prune cs"
| "prune (TFolder nm sub # cs) =
     (if fileNodes [] sub = [] then prune cs else TFolder nm (prune sub) # prune cs)"

text \<open>The name paths of those folders, each folder after the folders it holds.\<close>

fun emptyPaths :: "node list \<Rightarrow> string list list" where
  "emptyPaths [] = []"
| "emptyPaths (TFile nm c # cs) = emptyPaths cs"
| "emptyPaths (TFolder nm sub # cs) =
     map ((#) nm) (emptyPaths sub) @ (if fileNodes [] sub = [] then [[nm]] else []) @ emptyPaths cs"

text \<open>A folder is at the path.\<close>

definition folder_at :: "host \<Rightarrow> string \<Rightarrow> bool" where
  "folder_at h p \<longleftrightarrow>
     (case getAbstractFileByPath h p of Some (TFolder nm cs) \<Rightarrow> True | _ \<Rightarrow> False)"

subsection \<open>Example data\<close>

text \<open>
  A small streaming digest for the examples: the state is the sum of the bytes seen so
  far, the digest is that byte 32 times.
\<close>

definition sum_api :: "byte hash_api" where
  "sum_api = \<lparr>createHash = 0, update = (\<lambda>st chunk. st + sum_list chunk),
              digest = (\<lambda>st. replicate 32 st)\<rparr>"

definition sum_digest :: "byte list \<Rightarrow> byte list" where
  "sum_digest data = replicate 32 (sum_list data)"

definition demo_settings :: FolderizeSettings where
  "demo_settings = \<lparr>attachmentPath = ''Attachments'', pathDepth = 2,
     enableAutoOrganize = False, removeEmptyFolders_opt = True, logLevel = WARN\<rparr>"

definition demo_settings_prev :: FolderizeSettings_prev where
  "demo_settings_prev = \<lparr>attachmentPath = ''Attachments'', pathDepth = 2,
     enableAutoOrganize = False, removeEmptyFolders_opt = True, logLevel = WARN,
     chunkSize = Finite 4096\<rparr>"

definition host_of :: "node list \<Rightarrow> host" where
  "host_of v = \<lparr>vault = v, denied = [], notices = [], calls = []\<rparr>"

text \<open>A file that already lies where its digest puts it.\<close>

definition vault_placed :: "node list" where
  "vault_placed =
     [TFolder ''Attachments'' [TFolder ''06'' [TFolder ''06'' [TFile ''a.png'' (Some [1, 2, 3])]]]]"

text \<open>Two files, the first of which cannot be read.\<close>

definition vault_unreadable :: "node list" where
  "vault_unreadable =
     [TFolder ''Attachments'' [TFile ''a.png'' None, TFile ''b.png'' (Some [161])]]"


text \<open>Two empty folders side by side.\<close>

definition vault_siblings :: "node list" where
  "vault_siblings = [TFolder ''Attachments'' [TFolder ''a1'' [], TFolder ''a2'' []]]"

text \<open>An attachment folder that holds nothing.\<close>

definition vault_empty_root :: "node list" where
  "vault_empty_root = [TFolder ''Attachments'' [], TFile ''note.md'' (Some [])]"

text \<open>Files to move, folders that become empty and folders that are empty.\<close>

definition vault_mixed :: "node list" where
  "vault_mixed =
     [TFolder ''Attachments''
        [TFile ''a.png'' (Some [1, 2, 3]),
         TFolder ''x'' [TFile ''b.png'' (Some [161])],
         TFolder ''e1'' [TFolder ''e11'' []]],
      TFile ''note.md'' (Some [])]"

section \<open>Properties\<close>

subsection \<open>The checksum loop\<close>

lemma relativeIndex_nonneg:
  assumes "0 \<le> q"
  shows "relativeIndex len (Finite q) = min (nat \<lfloor>q\<rfloor>) len"
proof -
  from assms have "0 \<le> \<lfloor>q\<rfloor>" by simp
  moreover from assms have "trunc q = \<lfloor>q\<rfloor>" by (simp add: trunc_def)
  ultimately show ?thesis by (simp add: relativeIndex_def Let_def)
qed

lemma relativeIndex_Infinity: "relativeIndex len Infinity = len"
  by (simp add: relativeIndex_def)


lemma relativeIndex_mono:
  assumes "0 \<le> q" "q \<le> q'"
  shows "relativeIndex len (Finite q) \<le> relativeIndex len (Finite q')"
proof -
  from assms have "0 \<le> q'" by simp
  moreover from assms(2) have "\<lfloor>q\<rfloor> \<le> \<lfloor>q'\<rfloor>" by (rule floor_mono)
  then have "nat \<lfloor>q\<rfloor> \<le> nat \<lfloor>q'\<rfloor>" by simp
  ultimately show ?thesis using assms(1)
    by (simp add: relativeIndex_nonneg min_def)
qed

lemma relativeIndex_past_end:
  assumes "of_nat len \<le> q"
  shows "relativeIndex len (Finite q) = len"
proof -
  have "(0::rat) \<le> of_nat len" by simp
  with assms have nn: "0 \<le> q" by linarith
  from assms have "\<lfloor>of_nat len :: rat\<rfloor> \<le> \<lfloor>q\<rfloor>" by (rule floor_mono)
  then have "len \<le> nat \<lfloor>q\<rfloor>" by simp
  with nn show ?thesis by (simp add: relativeIndex_nonneg)
qed

lemma take_drop_join:
  assumes "first \<le> final"
  shows "take (final - first) (drop first xs) @ drop final xs = drop first xs"
proof -
  from assms have "drop final xs = drop (final - first) (drop first xs)" by simp
  then show ?thesis by (simp only: append_take_drop_id)
qed

lemma cksum_loop_chunks_Finite:
  assumes "0 < c" "0 \<le> offset"
  shows "\<exists>chunks. cksum_loop api data (Finite c) (Finite offset) hash
                     = Some (foldl (update api) hash chunks)
           \<and> concat chunks = drop (relativeIndex (length data) (Finite offset)) data"
  using assms(2)
proof (induction "nat \<lceil>(of_nat (length data) - offset) / c\<rceil>" arbitrary: offset hash
    rule: less_induct)
  case less
  let ?len = "length data"
  show ?case
  proof (cases "offset < of_nat ?len")
    case False
    then have "cksum_loop api data (Finite c) (Finite offset) hash
                 = Some (foldl (update api) hash [])"
      by (subst cksum_loop.simps) simp
    moreover from False have "relativeIndex ?len (Finite offset) = ?len"
      by (intro relativeIndex_past_end) simp
    then have "concat [] = drop (relativeIndex ?len (Finite offset)) data" by simp
    ultimately show ?thesis by blast
  next
    case True
    let ?c = "bufferSlice data (Finite offset) (Finite offset + Finite c)"
    have pos: "0 < (of_nat ?len - offset) / c" using True assms(1) by simp
    have "(of_nat ?len - (offset + c)) / c = (of_nat ?len - offset) / c - 1"
      using assms(1) by (simp add: field_simps)
    then have "\<lceil>(of_nat ?len - (offset + c)) / c\<rceil> = \<lceil>(of_nat ?len - offset) / c\<rceil> - 1"
      by simp
    moreover from pos have "0 < \<lceil>(of_nat ?len - offset) / c\<rceil>" by simp
    ultimately have dec: "nat \<lceil>(of_nat ?len - (offset + c)) / c\<rceil>
        < nat \<lceil>(of_nat ?len - offset) / c\<rceil>"
      by linarith
    have nn: "0 \<le> offset + c" using less.prems assms(1) by simp
    from less.hyps [OF dec nn, of "update api hash ?c"]
    obtain chunks where
      run: "cksum_loop api data (Finite c) (Finite (offset + c)) (update api hash ?c)
              = Some (foldl (update api) (update api hash ?c) chunks)"
      and cat: "concat chunks = drop (relativeIndex ?len (Finite (offset + c))) data"
      by blast
    have "cksum_loop api data (Finite c) (Finite offset) hash
            = Some (foldl (update api) hash (?c # chunks))"
      using True run by (subst cksum_loop.simps) simp
    moreover have "concat (?c # chunks) = drop (relativeIndex ?len (Finite offset)) data"
    proof -
      have "relativeIndex ?len (Finite offset) \<le> relativeIndex ?len (Finite (offset + c))"
        using less.prems assms(1) by (intro relativeIndex_mono) simp_all
      from take_drop_join [OF this, of data] cat show ?thesis
        by (simp add: bufferSlice_def Let_def)
    qed
    ultimately show ?thesis by blast
  qed
qed

lemma cksum_loop_chunks_Infinity:
  assumes "0 \<le> offset"
  shows "\<exists>chunks. cksum_loop api data Infinity (Finite offset) hash
                     = Some (foldl (update api) hash chunks)
           \<and> concat chunks = drop (relativeIndex (length data) (Finite offset)) data"
proof (cases "offset < of_nat (length data)")
  case False
  then have "cksum_loop api data Infinity (Finite offset) hash
               = Some (foldl (update api) hash [])"
    by (subst cksum_loop.simps) simp
  moreover from False have "relativeIndex (length data) (Finite offset) = length data"
    by (intro relativeIndex_past_end) simp
  then have "concat [] = drop (relativeIndex (length data) (Finite offset)) data" by simp
  ultimately show ?thesis by blast
next
  case True
  let ?c = "bufferSlice data (Finite offset) Infinity"
  have "cksum_loop api data Infinity Infinity (update api hash ?c) = Some (update api hash ?c)"
    by (subst cksum_loop.simps) simp
  with True have "cksum_loop api data Infinity (Finite offset) hash
      = Some (foldl (update api) hash [?c])"
    by (subst cksum_loop.simps) simp
  moreover have "concat [?c] = drop (relativeIndex (length data) (Finite offset)) data"
    by (simp add: bufferSlice_def Let_def relativeIndex_Infinity)
  ultimately show ?thesis by blast
qed

lemma cksum_loop_chunks:
  assumes "Finite 0 < csize"
  shows "\<exists>chunks. cksum_loop api data csize (Finite 0) hash
                     = Some (foldl (update api) hash chunks)
           \<and> concat chunks = data"
proof (cases csize)
  case (Finite c)
  with assms have "0 < c" by simp
  from cksum_loop_chunks_Finite [OF this, of 0 api data hash] Finite show ?thesis
    by (simp add: relativeIndex_nonneg)
next
  case Infinity
  from cksum_loop_chunks_Infinity [of 0 api data hash] Infinity show ?thesis
    by (simp add: relativeIndex_nonneg)
qed (use assms in simp_all)

lemma number_one_le: "Finite 1 \<le> csize \<Longrightarrow> Finite 0 < csize"
  by (cases csize) simp_all






lemma cksum_bytes_streaming:
  assumes "streaming_digest api sha" "Finite 1 \<le> csize"
  shows "cksum_bytes api data csize = Some (sha data)"
proof -
  from cksum_loop_chunks [OF number_one_le [OF assms(2)], of api data "createHash api"]
  obtain chunks where
    run: "cksum_loop api data csize (Finite 0) (createHash api)
            = Some (foldl (update api) (createHash api) chunks)"
    and cat: "concat chunks = data"
    by auto
  from assms(1) have "digest api (foldl (update api) (createHash api) chunks) = sha (concat chunks)"
    by (simp add: streaming_digest_def)
  with run cat show ?thesis
    by (simp add: cksum_bytes_def)
qed

lemma foldl_sum_update: "foldl (\<lambda>st chunk. st + sum_list chunk) (a::byte) chunks = a + sum_list (concat chunks)"
  by (induction chunks arbitrary: a) (simp_all add: add.assoc)

lemma streaming_sum_api: "streaming_digest sum_api sum_digest"
  by (simp add: streaming_digest_def sum_api_def sum_digest_def foldl_sum_update)

text \<open>
  C3. With a digest object that keeps the streaming contract for \<open>sha\<close>, the chunked
  computation returns exactly \<open>sha\<close> of the whole content for every chunk size of at
  least 1 (a whole number or not, or \<^verbatim>\<open>Infinity\<close>), from the bytes alone and through
  \<^verbatim>\<open>cksum\<close> (\<^verbatim>\<open>calculateChecksum\<close> in the earlier revision) on a readable file; so the
  result is the same for every such chunk size.
\<close>

theorem cksum_independent_of_chunk_size:
  assumes "streaming_digest api sha" and "Finite 1 \<le> csize"
  shows "cksum_bytes api data csize = Some (sha data)
       \<and> (readBinary h filePath = Inr data \<longrightarrow>
            cksum api filePath csize h = Some (Inr (sha data), issue (ReadBinary filePath) h)
          \<and> calculateChecksum api filePath csize h
              = Some (Inr (sha data), issue (ReadBinary filePath) h))
       \<and> (\<forall>csize'. Finite 1 \<le> csize' \<longrightarrow> cksum_bytes api data csize' = cksum_bytes api data csize)"
proof -
  have a: "cksum_bytes api data csize = Some (sha data)"
    by (rule cksum_bytes_streaming [OF assms])
  have "cksum_bytes api data csize' = cksum_bytes api data csize" if "Finite 1 \<le> csize'" for csize'
    using cksum_bytes_streaming [OF assms(1) that] a by simp
  with a show ?thesis
    by (simp add: cksum_def calculateChecksum_def)
qed

theorem cksum_independent_of_chunk_size_witness:
  "streaming_digest sum_api sum_digest \<and> Finite 1 \<le> Finite 2
   \<and> cksum_bytes sum_api [1, 2, 3] (Finite 2) = Some (replicate 32 6)
   \<and> Finite 1 \<le> Finite 4096
   \<and> cksum_bytes sum_api [1, 2, 3] (Finite 4096) = cksum_bytes sum_api [1, 2, 3] (Finite 2)
   \<and> Finite 1 \<le> Finite (3 / 2)
   \<and> cksum_bytes sum_api [1, 2, 3] (Finite (3 / 2)) = cksum_bytes sum_api [1, 2, 3] (Finite 2)
   \<and> Finite 1 \<le> Infinity
   \<and> cksum_bytes sum_api [1, 2, 3] Infinity = cksum_bytes sum_api [1, 2, 3] (Finite 2)"
  using cksum_independent_of_chunk_size [OF streaming_sum_api, of "Finite 2" "[1, 2, 3]"]
    streaming_sum_api
  by (simp add: sum_digest_def)




subsection \<open>Hash to path\<close>

lemma toString16_byte:
  assumes "n < 256"
  shows "padStart 2 (CHR ''0'') (toString16 n) = [hexDigit (n div 16), hexDigit (n mod 16)]"
proof (cases "n < 16")
  case True
  then have "toString16 n = [hexDigit n]"
    by (subst toString16.simps) simp
  moreover from True have "hexDigit (n div 16) = CHR ''0''"
    by (simp add: hexDigit_def)
  ultimately show ?thesis using True
    by (simp add: padStart_def)
next
  case False
  with assms have "n div 16 < 16" by simp
  then have "toString16 (n div 16) = [hexDigit (n div 16)]"
    by (subst toString16.simps) simp
  with False have "toString16 n = [hexDigit (n div 16), hexDigit (n mod 16)]"
    by (subst toString16.simps) simp
  then show ?thesis
    by (simp add: padStart_def)
qed

lemma hex_of_byte: "padStart 2 (CHR ''0'') (toString16 (unat (b::byte))) = hex_pair b"
proof -
  have "unat b < 256" using unsigned_less [of b, where 'a = nat] by simp
  from toString16_byte [OF this] show ?thesis by (simp add: hex_pair_def)
qed

lemma generatePath_loop_eq:
  "generatePath_loop checksum depth i parts
     = parts @ map hex_pair (drop i (take (nat depth) checksum))"
proof (induction checksum depth i parts rule: generatePath_loop.induct)
  case (1 checksum depth i parts)
  show ?case
  proof (cases "int i < depth \<and> i < length checksum")
    case True
    then have "i < nat depth" by linarith
    with True have len: "i < length (take (nat depth) checksum)" by simp
    have "drop i (take (nat depth) checksum)
            = checksum ! i # drop (Suc i) (take (nat depth) checksum)"
      using Cons_nth_drop_Suc [OF len] len by simp
    with True 1 show ?thesis
      by (subst generatePath_loop.simps) (simp add: hex_of_byte)
  next
    case False
    then have "drop i (take (nat depth) checksum) = []" by auto
    with False show ?thesis
      by (subst generatePath_loop.simps) auto
  qed
qed

lemma join_slash: "join ''/'' (p # ps) = p @ concat (map (\<lambda>q. CHR ''/'' # q) ps)"
  by (induction ps arbitrary: p) simp_all

lemma generatePath_eq:
  "generatePath checksum settings
     = attachmentPath settings @ concat (map (\<lambda>b. CHR ''/'' # hex_pair b) (take (nat (pathDepth settings)) checksum))"
  by (simp add: generatePath_def generatePath_loop_eq join_slash comp_def)

lemma hex_pair_table:
  "hex_pair b = [''0123456789abcdef'' ! (unat b div 16), ''0123456789abcdef'' ! (unat b mod 16)]"
proof -
  have "unat b < 256" using unsigned_less [of b, where 'a = nat] by simp
  then have "unat b div 16 < 16" by simp
  then show ?thesis by (simp add: hex_pair_def hexDigit_def)
qed

text \<open>
  C2. For a 32-byte checksum and a depth \<open>d \<ge> 0\<close>, \<^verbatim>\<open>generatePath\<close> returns the
  root path followed by exactly \<open>min d 32\<close> segments, each a slash and the two lowercase
  hexadecimal digits of the next checksum byte, in order: the digit of the byte divided
  by 16, then the digit of the remainder, each read off the table
  \<^verbatim>\<open>0123456789abcdef\<close>. The function has no failing branch: a depth above 32 stops at
  the last byte.
\<close>

theorem generatePath_shape:
  assumes "length checksum = 32" and "0 \<le> pathDepth settings"
  shows "generatePath checksum settings
           = attachmentPath settings
             @ concat (map (\<lambda>b. [CHR ''/'', ''0123456789abcdef'' ! (unat b div 16),
                                   ''0123456789abcdef'' ! (unat b mod 16)])
                 (take (nat (min (pathDepth settings) 32)) checksum))
         \<and> length (take (nat (min (pathDepth settings) 32)) checksum) = nat (min (pathDepth settings) 32)"
proof -
  have "take (nat (pathDepth settings)) checksum = take (nat (min (pathDepth settings) 32)) checksum"
  proof (cases "pathDepth settings \<le> 32")
    case True
    then show ?thesis by (simp add: min_def)
  next
    case False
    then have "length checksum \<le> nat (pathDepth settings)" using assms by linarith
    with False assms show ?thesis by (simp add: min_def)
  qed
  moreover have "length (take (nat (min (pathDepth settings) 32)) checksum) = nat (min (pathDepth settings) 32)"
  proof -
    have "nat (min (pathDepth settings) 32) \<le> 32" by linarith
    with assms(1) show ?thesis by simp
  qed
  ultimately show ?thesis
    by (simp add: generatePath_eq hex_pair_table)
qed

theorem generatePath_shape_witness:
  "length (replicate 32 (161::byte)) = 32 \<and> (0::int) \<le> 40
   \<and> generatePath (replicate 32 161) (demo_settings\<lparr>pathDepth := 40\<rparr>)
       = ''Attachments'' @ concat (replicate 32 ''/a1'')
   \<and> length ([255, 171, 18, 52, 0, 9, 10, 240] @ replicate 24 (7::byte)) = 32 \<and> (0::int) \<le> 8
   \<and> generatePath ([255, 171, 18, 52, 0, 9, 10, 240] @ replicate 24 7) (demo_settings\<lparr>pathDepth := 8\<rparr>)
       = ''Attachments/ff/ab/12/34/00/09/0a/f0''"
proof -
  have "generatePath (replicate 32 161) (demo_settings\<lparr>pathDepth := 40\<rparr>)
       = ''Attachments'' @ concat (replicate 32 ''/a1'')"
    using generatePath_shape [of "replicate 32 161" "demo_settings\<lparr>pathDepth := 40\<rparr>"]
    by (simp add: demo_settings_def)
  moreover have "generatePath ([255, 171, 18, 52, 0, 9, 10, 240] @ replicate 24 7)
        (demo_settings\<lparr>pathDepth := 8\<rparr>)
       = ''Attachments/ff/ab/12/34/00/09/0a/f0''"
    using generatePath_shape [of "[255, 171, 18, 52, 0, 9, 10, 240] @ replicate 24 7"
        "demo_settings\<lparr>pathDepth := 8\<rparr>"]
    by (simp add: demo_settings_def)
  ultimately show ?thesis by simp
qed

subsection \<open>Placing one file\<close>

lemma cksum_HASH_CHUNK_SIZE:
  assumes "streaming_digest api sha" and "readBinary h file = Inr content"
  shows "cksum api file HASH_CHUNK_SIZE h = Some (Inr (sha content), issue (ReadBinary file) h)"
  using cksum_bytes_streaming [OF assms(1), of HASH_CHUNK_SIZE content] assms(2)
  by (simp add: cksum_def HASH_CHUNK_SIZE_def)

lemma organizeFile_prev_idempotent:
  assumes "streaming_digest api sha"
    and "Finite 1 \<le> chunkSize settings"
    and "readBinary h file = Inr content"
    and "file = generatePath (sha content) settings @ ''/'' @ basename file"
  shows "organizeFile_prev api file settings h = Some (h\<lparr>calls := calls h @ [ReadBinary file]\<rparr>)"
  using cksum_bytes_streaming [OF assms(1,2), of content] assms(3,4)
  by (simp add: organizeFile_prev_def calculateChecksum_def cksum_def issue_def)

text \<open>
  C1. When the content of the file can be read and the path of the file is already the
  derived target path (root path, the hexadecimal segments of the digest of the content,
  the base name), \<^verbatim>\<open>organizeFile\<close> returns normally and leaves the host as it was, but
  for the one read it issued: no folder is created, nothing is renamed, nothing is
  shown. The same holds for \<^verbatim>\<open>organizeFile\<close> of the earlier revision, whose chunk size
  comes from the settings, when that chunk size is at least 1.
\<close>

theorem organizeFile_idempotent:
  assumes "streaming_digest api sha"
    and "readBinary h file = Inr content"
    and "file = generatePath (sha content) settings @ ''/'' @ basename file"
  shows "organizeFile api file settings h = Some (Inr (), h\<lparr>calls := calls h @ [ReadBinary file]\<rparr>)
       \<and> (Finite 1 \<le> chunkSize settings'
            \<and> file = generatePath (sha content) settings' @ ''/'' @ basename file
          \<longrightarrow> organizeFile_prev api file settings' h
                = Some (h\<lparr>calls := calls h @ [ReadBinary file]\<rparr>))"
proof -
  have "organizeFile api file settings h = Some (Inr (), h\<lparr>calls := calls h @ [ReadBinary file]\<rparr>)"
    using cksum_HASH_CHUNK_SIZE [OF assms(1,2)] assms(3)
    by (simp add: organizeFile_def issue_def)
  with organizeFile_prev_idempotent [OF assms(1) _ assms(2), of settings'] show ?thesis
    by simp
qed

theorem organizeFile_idempotent_witness:
  "streaming_digest sum_api sum_digest
   \<and> readBinary (host_of vault_placed) ''Attachments/06/06/a.png'' = Inr [1, 2, 3]
   \<and> ''Attachments/06/06/a.png''
        = generatePath (sum_digest [1, 2, 3]) demo_settings @ ''/'' @ basename ''Attachments/06/06/a.png''
   \<and> organizeFile sum_api ''Attachments/06/06/a.png'' demo_settings (host_of vault_placed)
        = Some (Inr (), \<lparr>vault = vault_placed, denied = [], notices = [],
                          calls = [ReadBinary ''Attachments/06/06/a.png'']\<rparr>)
   \<and> Finite 1 \<le> chunkSize demo_settings_prev
   \<and> ''Attachments/06/06/a.png''
        = generatePath (sum_digest [1, 2, 3]) demo_settings_prev @ ''/'' @ basename ''Attachments/06/06/a.png''
   \<and> organizeFile_prev sum_api ''Attachments/06/06/a.png'' demo_settings_prev (host_of vault_placed)
        = Some \<lparr>vault = vault_placed, denied = [], notices = [],
                  calls = [ReadBinary ''Attachments/06/06/a.png'']\<rparr>"
proof -
  have r: "readBinary (host_of vault_placed) ''Attachments/06/06/a.png'' = Inr [1, 2, 3]"
    by (simp add: readBinary_def getAbstractFileByPath_def host_of_def vault_placed_def)
  have p: "''Attachments/06/06/a.png''
        = generatePath (sum_digest [1, 2, 3]) demo_settings @ ''/'' @ basename ''Attachments/06/06/a.png''"
    by code_simp
  have c: "Finite 1 \<le> chunkSize demo_settings_prev"
    by (simp add: demo_settings_prev_def)
  have q: "''Attachments/06/06/a.png''
        = generatePath (sum_digest [1, 2, 3]) demo_settings_prev @ ''/'' @ basename ''Attachments/06/06/a.png''"
    by code_simp
  from organizeFile_idempotent [OF streaming_sum_api r p, of demo_settings_prev] r p c q
    streaming_sum_api
  show ?thesis by (simp add: host_of_def)
qed

subsection \<open>Pruning\<close>

lemma fileNodes_append: "fileNodes fp (xs @ ys) = fileNodes fp xs @ fileNodes fp ys"
  by (induction fp xs rule: fileNodes.induct) simp_all

lemma fileNodes_update:
  assumes "i < length cs" and "cs ! i = TFolder nm sub"
    and "fileNodes (childPath fp nm) sub' = fileNodes (childPath fp nm) sub"
  shows "fileNodes fp (cs[i := TFolder nm sub']) = fileNodes fp cs"
proof -
  have "cs = take i cs @ TFolder nm sub # drop (Suc i) cs"
    using id_take_nth_drop [OF assms(1)] assms(2) by simp
  then have "fileNodes fp cs
      = fileNodes fp (take i cs) @ fileNodes (childPath fp nm) sub @ fileNodes fp (drop (Suc i) cs)"
    using fileNodes_append [of fp "take i cs" "TFolder nm sub # drop (Suc i) cs"] by simp
  moreover have "fileNodes fp (cs[i := TFolder nm sub'])
      = fileNodes fp (take i cs) @ fileNodes (childPath fp nm) sub' @ fileNodes fp (drop (Suc i) cs)"
    using upd_conv_take_nth_drop [OF assms(1), of "TFolder nm sub'"]
    by (simp add: fileNodes_append)
  ultimately show ?thesis using assms(3) by simp
qed

lemma fileNodes_deleteChild:
  assumes "i < length cs" and "cs ! i = TFolder nm sub"
    and "fileNodes (childPath fp nm) sub = []"
  shows "fileNodes fp (deleteChild i cs) = fileNodes fp cs"
proof -
  have "cs = take i cs @ TFolder nm sub # drop (Suc i) cs"
    using id_take_nth_drop [OF assms(1)] assms(2) by simp
  then have "fileNodes fp cs
      = fileNodes fp (take i cs) @ fileNodes (childPath fp nm) sub @ fileNodes fp (drop (Suc i) cs)"
    using fileNodes_append [of fp "take i cs" "TFolder nm sub # drop (Suc i) cs"] by simp
  with assms(3) show ?thesis
    by (simp add: deleteChild_def fileNodes_append)
qed

lemma only_empty_deletes_refl: "only_empty_deletes issued issued"
  by (simp add: only_empty_deletes_def)

lemma only_empty_deletes_trans:
  "only_empty_deletes a b \<Longrightarrow> only_empty_deletes b c \<Longrightarrow> only_empty_deletes a c"
  by (auto simp: only_empty_deletes_def)

lemma only_empty_deletes_step:
  "only_empty_deletes a b \<Longrightarrow> only_empty_deletes a (b @ [Delete p (TFolder nm [])])"
  by (auto simp: only_empty_deletes_def)

lemma removeEmptyFolders_keeps_files:
  "removeEmptyFolders den fp i n st = (r, cs', issued')
   \<Longrightarrow> (\<forall>fp'. fileNodes fp' cs' = fileNodes fp' (fst st)) \<and> only_empty_deletes (snd st) issued'"
proof (induction den fp i n st arbitrary: r cs' issued' rule: removeEmptyFolders.induct)
  case (1 den fp i n cs issued)
  note run = "1.prems" [unfolded removeEmptyFolders.simps [of den fp i n cs issued]]
  show ?case
  proof (cases "i < length cs")
    case False
    with run show ?thesis by (simp add: only_empty_deletes_refl)
  next
    case inb: True
    show ?thesis
    proof (cases "cs ! i")
      case (TFile nm c)
      with inb run have "removeEmptyFolders den fp (i + 1) n (cs, issued) = (r, cs', issued')"
        by simp
      from "1.IH"(1) [OF inb TFile this] show ?thesis by simp
    next
      case (TFolder nm sub)
      obtain x sub' iss' where
        sub: "removeEmptyFolders den (childPath fp nm) 0 0 (sub, issued) = (x, sub', iss')"
        by (cases "removeEmptyFolders den (childPath fp nm) 0 0 (sub, issued)") auto
      from "1.IH"(2) [OF inb TFolder sub]
      have subfiles: "\<And>fp'. fileNodes fp' sub' = fileNodes fp' sub"
        and sublog: "only_empty_deletes issued iss'" by simp_all
      have upd: "\<And>fp'. fileNodes fp' (cs[i := TFolder nm sub']) = fileNodes fp' cs"
        using fileNodes_update [OF inb TFolder] subfiles by simp
      show ?thesis
      proof (cases x)
        case (Inl e)
        with inb TFolder sub run have "cs' = cs[i := TFolder nm sub']" "issued' = iss'"
          by simp_all
        with upd sublog show ?thesis by simp
      next
        case (Inr k)
        show ?thesis
        proof (cases "length sub' = 0")
          case empty: True
          then have sub'_Nil: "sub' = []" by simp
          have del: "\<And>fp'. fileNodes fp' (deleteChild i cs) = fileNodes fp' cs"
            using fileNodes_deleteChild [OF inb TFolder] subfiles sub'_Nil by simp
          have log: "only_empty_deletes issued (iss' @ [Delete (childPath fp nm) (TFolder nm sub')])"
            using only_empty_deletes_step [OF sublog] sub'_Nil by simp
          show ?thesis
          proof (cases "childPath fp nm \<in> set den")
            case True
            with inb TFolder sub Inr empty run
            have "cs' = cs[i := TFolder nm sub']"
              "issued' = iss' @ [Delete (childPath fp nm) (TFolder nm sub')]"
              by simp_all
            with upd log show ?thesis by simp
          next
            case False
            with inb TFolder sub Inr empty run
            have next_run: "removeEmptyFolders den fp (i + 1) (n + k + 1)
                    (deleteChild i cs, iss' @ [Delete (childPath fp nm) (TFolder nm sub')])
                  = (r, cs', issued')"
              by simp
            from "1.IH"(3) [OF inb TFolder sub [symmetric] Inr refl empty False next_run]
            show ?thesis using del only_empty_deletes_trans [OF log] by simp
          qed
        next
          case nonempty: False
          with inb TFolder sub Inr run
          have next_run: "removeEmptyFolders den fp (i + 1) (n + k) (cs[i := TFolder nm sub'], iss')
                  = (r, cs', issued')"
            by simp
          from "1.IH"(4) [OF inb TFolder sub [symmetric] Inr refl nonempty next_run]
          show ?thesis using upd only_empty_deletes_trans [OF sublog] by simp
        qed
      qed
    qed
  qed
qed

lemma find_modify:
  "find (\<lambda>n. node_name n = s) (modify (s # ss) f cs)
     = map_option (\<lambda>n. case n of TFolder nm sub \<Rightarrow> TFolder nm (modify ss f sub) | TFile nm c \<Rightarrow> n)
         (find (\<lambda>n. node_name n = s) cs)"
proof (induction cs)
  case Nil
  show ?case by simp
next
  case (Cons n cs)
  then show ?case by (cases n) simp_all
qed

lemma lookup_Cons:
  "lookup cs (s # ss) =
     (if ss = [] then find (\<lambda>n. node_name n = s) cs
      else (case find (\<lambda>n. node_name n = s) cs of
              Some (TFolder nm sub) \<Rightarrow> lookup sub ss
            | _ \<Rightarrow> None))"
  by (cases ss) (auto split: option.splits node.splits)

lemma lookup_modify:
  "lookup cs segs = Some (TFolder nm sub)
   \<Longrightarrow> lookup (modify segs f cs) segs = Some (TFolder nm (f sub))"
proof (induction segs arbitrary: cs)
  case Nil
  then show ?case by simp
next
  case (Cons s ss)
  show ?case
  proof (cases "ss = []")
    case True
    with Cons.prems have "find (\<lambda>n. node_name n = s) cs = Some (TFolder nm sub)"
      by (simp add: lookup_Cons)
    with True show ?thesis
      by (simp add: lookup_Cons find_modify)
  next
    case False
    with Cons.prems obtain nm' sub' where
      f: "find (\<lambda>n. node_name n = s) cs = Some (TFolder nm' sub')"
      and l: "lookup sub' ss = Some (TFolder nm sub)"
      by (auto simp: lookup_Cons split: option.splits node.splits)
    from Cons.IH [OF l] f False show ?thesis
      by (simp add: lookup_Cons find_modify)
  qed
qed

lemma fileNodes_modify:
  assumes "lookup v segs = Some (TFolder nm cs)"
    and "\<And>fp. fileNodes fp cs' = fileNodes fp cs"
  shows "fileNodes fp0 (modify segs (\<lambda>old. cs') v) = fileNodes fp0 v"
  using assms(1)
proof (induction segs "\<lambda>old :: node list. cs'" v arbitrary: fp0 rule: modify.induct)
  case (1 cs)
  then show ?case by simp
next
  case (2 s ss)
  then show ?case by (simp add: lookup_Cons)
next
  case (3 s ss nm' c rest)
  then show ?case
    by (auto simp: lookup_Cons split: if_splits)
next
  case (4 s ss nm' sub rest)
  show ?case
  proof (cases "nm' = s")
    case True
    show ?thesis
    proof (cases "ss = []")
      case True
      with \<open>nm' = s\<close> "4.prems" have "sub = cs" by (simp add: lookup_Cons)
      with True \<open>nm' = s\<close> assms(2) show ?thesis by simp
    next
      case False
      with \<open>nm' = s\<close> "4.prems" have "lookup sub ss = Some (TFolder nm cs)"
        by (simp add: lookup_Cons)
      from "4.hyps"(1) [OF \<open>nm' = s\<close> this] \<open>nm' = s\<close> show ?thesis by simp
    qed
  next
    case False
    with "4.prems" have "lookup rest (s # ss) = Some (TFolder nm cs)"
      by (auto simp: lookup_Cons split: if_splits)
    from "4.hyps"(2) [OF False this] False show ?thesis by simp
  qed
qed

lemma cleanEmptyDirectories_cases:
  assumes "getAbstractFileByPath h p = Some (TFolder nm cs)"
  obtains r cs' issued' n where
    "removeEmptyFolders (denied h) p 0 0 (cs, calls h) = (r, cs', issued')"
    "vault (snd (cleanEmptyDirectories p h)) = modify (splitOn (CHR ''/'') p) (\<lambda>old. cs') (vault h)"
    "calls (snd (cleanEmptyDirectories p h)) = issued'"
proof -
  obtain r cs' issued' where
    run: "removeEmptyFolders (denied h) p 0 0 (cs, calls h) = (r, cs', issued')"
    by (cases "removeEmptyFolders (denied h) p 0 0 (cs, calls h)") auto
  with assms have
    "vault (snd (cleanEmptyDirectories p h)) = modify (splitOn (CHR ''/'') p) (\<lambda>old. cs') (vault h)"
    "calls (snd (cleanEmptyDirectories p h)) = issued'"
    by (auto simp: cleanEmptyDirectories_def notify_def Let_def split: sum.splits)
  with run that show thesis by blast
qed

lemma cleanEmptyDirectories_no_folder:
  assumes "\<not> folder_at h p"
  shows "cleanEmptyDirectories p h = (Inr (), h)"
  using assms unfolding cleanEmptyDirectories_def folder_at_def
  by (auto split: option.splits node.splits)

lemma cleanEmptyDirectories_files_and_calls:
  "fileNodes ''/'' (vault (snd (cleanEmptyDirectories p h))) = fileNodes ''/'' (vault h)
   \<and> only_empty_deletes (calls h) (calls (snd (cleanEmptyDirectories p h)))"
proof (cases "folder_at h p")
  case False
  then show ?thesis
    by (simp add: cleanEmptyDirectories_no_folder only_empty_deletes_refl)
next
  case True
  then obtain nm cs where res: "getAbstractFileByPath h p = Some (TFolder nm cs)"
    by (auto simp: folder_at_def split: option.splits node.splits)
  from cleanEmptyDirectories_cases [OF res] obtain r cs' issued' where
    run: "removeEmptyFolders (denied h) p 0 0 (cs, calls h) = (r, cs', issued')"
    and v: "vault (snd (cleanEmptyDirectories p h)) = modify (splitOn (CHR ''/'') p) (\<lambda>old. cs') (vault h)"
    and c: "calls (snd (cleanEmptyDirectories p h)) = issued'"
    by blast
  from removeEmptyFolders_keeps_files [OF run]
  have files: "\<And>fp. fileNodes fp cs' = fileNodes fp cs"
    and log: "only_empty_deletes (calls h) issued'" by simp_all
  from res have "lookup (vault h) (splitOn (CHR ''/'') p) = Some (TFolder nm cs)"
    by (simp add: getAbstractFileByPath_def)
  from fileNodes_modify [OF this files] v c log show ?thesis by simp
qed

lemma cleanEmptyDirectories_root_stays:
  assumes "folder_at h p"
  shows "folder_at (snd (cleanEmptyDirectories p h)) p"
proof -
  from assms obtain nm cs where res: "getAbstractFileByPath h p = Some (TFolder nm cs)"
    by (auto simp: folder_at_def split: option.splits node.splits)
  from cleanEmptyDirectories_cases [OF res] obtain cs' where
    v: "vault (snd (cleanEmptyDirectories p h)) = modify (splitOn (CHR ''/'') p) (\<lambda>old. cs') (vault h)"
    by blast
  from res have "lookup (vault h) (splitOn (CHR ''/'') p) = Some (TFolder nm cs)"
    by (simp add: getAbstractFileByPath_def)
  from lookup_modify [OF this, of "\<lambda>old. cs'"] v show ?thesis
    by (simp add: folder_at_def getAbstractFileByPath_def)
qed

lemma folder_at_notify: "folder_at (notify n h) p = folder_at h p"
  by (simp add: folder_at_def notify_def getAbstractFileByPath_def)

subsection \<open>Pruning in the earlier revision\<close>

lemma length_fileNodes: "length (fileNodes fp cs) = length (fileNodes fp' cs)"
proof (induction fp cs arbitrary: fp' rule: fileNodes.induct)
  case (1 fp)
  show ?case by simp
next
  case (2 fp nm c cs)
  from "2.IH" [of fp'] show ?case by simp
next
  case (3 fp nm sub cs)
  from "3.IH"(1) [of "childPath fp' nm"] "3.IH"(2) [of fp'] show ?case by simp
qed

lemma fileNodes_Nil_any: "fileNodes fp cs = [] \<Longrightarrow> fileNodes fp' cs = []"
  using length_fileNodes [of fp cs fp'] by simp

lemma holds_no_file_TFile: "\<not> holds_no_file (TFile nm c)"
  by (simp add: holds_no_file_def)

lemma holds_no_file_TFolder: "holds_no_file (TFolder nm sub) \<longleftrightarrow> fileNodes fp sub = []"
  unfolding holds_no_file_def by (auto dest: fileNodes_Nil_any)

lemma fileNodes_Nil_iff: "fileNodes fp cs = [] \<longleftrightarrow> list_all holds_no_file cs"
proof (induction fp cs rule: fileNodes.induct)
  case (1 fp)
  show ?case by simp
next
  case (2 fp nm c cs)
  show ?case by (simp add: holds_no_file_TFile)
next
  case (3 fp nm sub cs)
  then show ?case
    by (simp add: holds_no_file_TFolder [of nm sub "childPath fp nm"])
qed

lemma findEmptyFolders_no_files:
  "list_all (\<lambda>(q, n). holds_no_file n) acc
   \<Longrightarrow> list_all (\<lambda>(q, n). holds_no_file n) (findEmptyFolders fp cs acc)"
proof (induction fp cs acc rule: findEmptyFolders.induct)
  case (1 fp acc)
  then show ?case by simp
next
  case (2 fp nm c cs acc)
  then show ?case by simp
next
  case (3 fp nm sub cs acc)
  let ?p = "childPath fp nm"
  let ?acc1 = "acc @ findEmptyFolders ?p sub []"
  let ?hasFiles = "list_ex is_TFile sub"
  let ?hasNonEmpty = "list_ex (\<lambda>c. \<not> is_TFile c \<and> (childPath ?p (node_name c), c) \<notin> set ?acc1) sub"
  let ?next = "if \<not> ?hasFiles \<and> \<not> ?hasNonEmpty then ?acc1 @ [(?p, TFolder nm sub)] else ?acc1"
  have sub_ok: "list_all (\<lambda>(q, n). holds_no_file n) (findEmptyFolders ?p sub [])"
    by (rule "3.IH"(1) [OF refl]) simp
  with "3.prems" have acc1: "list_all (\<lambda>(q, n). holds_no_file n) ?acc1" by simp
  have next_ok: "list_all (\<lambda>(q, n). holds_no_file n) ?next"
  proof (cases "\<not> ?hasFiles \<and> \<not> ?hasNonEmpty")
    case True
    have "holds_no_file c" if "c \<in> set sub" for c
    proof (cases "is_TFile c")
      case True
      with \<open>\<not> ?hasFiles \<and> \<not> ?hasNonEmpty\<close> that show ?thesis by (auto simp: list_ex_iff)
    next
      case False
      with \<open>\<not> ?hasFiles \<and> \<not> ?hasNonEmpty\<close> that
      have "(childPath ?p (node_name c), c) \<in> set ?acc1"
        by (auto simp: list_ex_iff)
      with acc1 show ?thesis by (auto simp: list_all_iff)
    qed
    then have "list_all holds_no_file sub" by (simp add: list_all_iff)
    then have "holds_no_file (TFolder nm sub)"
      by (simp add: holds_no_file_TFolder [of nm sub "[]"] fileNodes_Nil_iff)
    with acc1 True show ?thesis by simp
  next
    case False
    with acc1 show ?thesis by auto
  qed
  from "3.IH"(2) [OF refl refl refl refl next_ok] show ?case
    by (simp add: Let_def)
qed

lemma delete_calls: "calls (snd (delete p folder h)) = calls h @ [Delete p folder]"
  by (simp add: delete_def issue_def Let_def)

lemma delete_loop_calls:
  "calls (snd (delete_loop es n h)) = calls h @ map (\<lambda>(p, folder). Delete p folder) es"
proof (induction es n h rule: delete_loop.induct)
  case (1 n h)
  show ?case by simp
next
  case (2 p folder rest n h)
  obtain r h' where d: "delete p folder h = (r, h')" by (cases "delete p folder h") auto
  with delete_calls [of p folder h] have c: "calls h' = calls h @ [Delete p folder]" by simp
  show ?case
  proof (cases r)
    case (Inl e)
    from "2.IH"(1) [OF d [symmetric] Inl] d Inl c show ?thesis by simp
  next
    case (Inr u)
    from "2.IH"(2) [OF d [symmetric] Inr] d Inr c show ?thesis by simp
  qed
qed

lemma cleanEmptyDirectories_prev_deletes:
  "\<exists>es. calls (cleanEmptyDirectories_prev settings h) = calls h @ map (\<lambda>(p, folder). Delete p folder) es
        \<and> list_all (\<lambda>(p, folder). holds_no_file folder) es"
proof (cases "folder_at h (attachmentPath settings)")
  case False
  then have "cleanEmptyDirectories_prev settings h = h"
    unfolding cleanEmptyDirectories_prev_def folder_at_def
    by (auto split: option.splits node.splits)
  then have "calls (cleanEmptyDirectories_prev settings h) = calls h @ map (\<lambda>(p, folder). Delete p folder) []
        \<and> list_all (\<lambda>(p, folder). holds_no_file folder) []" by simp
  then show ?thesis by (intro exI)
next
  case True
  then obtain nm cs where res: "getAbstractFileByPath h (attachmentPath settings) = Some (TFolder nm cs)"
    by (auto simp: folder_at_def split: option.splits node.splits)
  let ?es = "rev (findEmptyFolders (attachmentPath settings) cs [])"
  have "list_all (\<lambda>(q, n). holds_no_file n) (findEmptyFolders (attachmentPath settings) cs [])"
    by (rule findEmptyFolders_no_files) simp
  then have ok: "list_all (\<lambda>(p, folder). holds_no_file folder) ?es" by (simp add: list_all_iff)
  have "calls (cleanEmptyDirectories_prev settings h) = calls (snd (delete_loop ?es 0 h))"
    using res by (simp add: cleanEmptyDirectories_prev_def Let_def notify_def split: prod.splits)
  with delete_loop_calls [of ?es 0 h] ok
  have "calls (cleanEmptyDirectories_prev settings h) = calls h @ map (\<lambda>(p, folder). Delete p folder) ?es
        \<and> list_all (\<lambda>(p, folder). holds_no_file folder) ?es" by simp
  then show ?thesis by (intro exI)
qed

lemma findEmptyFolders_path_below:
  "fp \<noteq> [] \<Longrightarrow> fp \<noteq> ''/'' \<Longrightarrow> list_all (\<lambda>(q, n). path_below fp q) acc
   \<Longrightarrow> list_all (\<lambda>(q, n). path_below fp q) (findEmptyFolders fp cs acc)"
proof (induction fp cs acc rule: findEmptyFolders.induct)
  case (1 fp acc)
  then show ?case by simp
next
  case (2 fp nm c cs acc)
  then show ?case by simp
next
  case (3 fp nm sub cs acc)
  let ?p = "childPath fp nm"
  let ?acc1 = "acc @ findEmptyFolders ?p sub []"
  let ?hasFiles = "list_ex is_TFile sub"
  let ?hasNonEmpty = "list_ex (\<lambda>c. \<not> is_TFile c \<and> (childPath ?p (node_name c), c) \<notin> set ?acc1) sub"
  let ?next = "if \<not> ?hasFiles \<and> \<not> ?hasNonEmpty then ?acc1 @ [(?p, TFolder nm sub)] else ?acc1"
  from "3.prems"(2) have p: "?p = fp @ ''/'' @ nm" by (simp add: childPath_def)
  with "3.prems"(1) have p_ok: "?p \<noteq> []" "?p \<noteq> ''/''" by (cases fp; simp)+
  have "list_all (\<lambda>(q, n). path_below ?p q) (findEmptyFolders ?p sub [])"
    by (rule "3.IH"(1) [OF refl p_ok]) simp
  moreover have "path_below fp q" if "path_below ?p q" for q
    using that p by (auto simp: path_below_def)
  ultimately have "list_all (\<lambda>(q, n). path_below fp q) (findEmptyFolders ?p sub [])"
    by (auto simp: list_all_iff)
  with "3.prems"(3) have acc1: "list_all (\<lambda>(q, n). path_below fp q) ?acc1" by simp
  moreover have "path_below fp ?p" using p by (auto simp: path_below_def)
  ultimately have next_ok: "list_all (\<lambda>(q, n). path_below fp q) ?next" by simp
  from "3.IH"(2) [OF refl refl refl refl "3.prems"(1,2) next_ok] show ?case
    by (simp add: Let_def)
qed

lemma splitOn_not_Nil: "splitOn c s \<noteq> []"
  by (induction s) (auto split: list.splits)

lemma splitOn_append: "splitOn c (a @ c # b) = splitOn c a @ splitOn c b"
proof (induction a)
  case Nil
  show ?case by simp
next
  case (Cons x a)
  obtain w ws where "splitOn c a = w # ws"
    using splitOn_not_Nil [of c a] by (cases "splitOn c a") auto
  with Cons show ?case by simp
qed

lemma lookup_modify_prefix:
  "lookup v r = Some (TFolder nm cs)
   \<Longrightarrow> \<exists>cs'. lookup (modify (r @ t) g v) r = Some (TFolder nm cs')"
proof (induction r arbitrary: v)
  case Nil
  then show ?case by simp
next
  case (Cons s ss)
  show ?case
  proof (cases "ss = []")
    case True
    with Cons.prems have "find (\<lambda>n. node_name n = s) v = Some (TFolder nm cs)"
      by (simp add: lookup_Cons)
    with True show ?thesis
      by (simp add: lookup_Cons find_modify)
  next
    case False
    with Cons.prems obtain nm' sub' where
      f: "find (\<lambda>n. node_name n = s) v = Some (TFolder nm' sub')"
      and l: "lookup sub' ss = Some (TFolder nm cs)"
      by (auto simp: lookup_Cons split: option.splits node.splits)
    from Cons.IH [OF l] f False show ?thesis
      by (simp add: lookup_Cons find_modify)
  qed
qed

lemma delete_keeps_root:
  assumes "folder_at h p" and "path_below p q"
  shows "folder_at (snd (delete q folder h)) p"
proof -
  from assms(1) obtain nm cs where
    res: "lookup (vault h) (splitOn (CHR ''/'') p) = Some (TFolder nm cs)"
    by (auto simp: folder_at_def getAbstractFileByPath_def split: option.splits node.splits)
  from assms(2) obtain rest where q: "q = p @ ''/'' @ rest" by (auto simp: path_below_def)
  let ?r = "splitOn (CHR ''/'') p" and ?sr = "splitOn (CHR ''/'') rest"
  have "splitOn (CHR ''/'') q = ?r @ ?sr"
    using q splitOn_append [of "CHR ''/''" p rest] by simp
  then have bl: "butlast (splitOn (CHR ''/'') q) = ?r @ butlast ?sr"
    using splitOn_not_Nil [of "CHR ''/''" rest] by (simp add: butlast_append)
  from lookup_modify_prefix [OF res, of "butlast ?sr" "remove_named (last (splitOn (CHR ''/'') q))"]
  obtain cs' where "lookup (modify (?r @ butlast ?sr)
      (remove_named (last (splitOn (CHR ''/'') q))) (vault h)) ?r = Some (TFolder nm cs')"
    by blast
  with bl res show ?thesis
    by (simp add: delete_def Let_def issue_def folder_at_def getAbstractFileByPath_def)
qed

lemma delete_loop_keeps_root:
  "folder_at h p \<Longrightarrow> list_all (\<lambda>(q, n). path_below p q) es
   \<Longrightarrow> folder_at (snd (delete_loop es k h)) p"
proof (induction es k h rule: delete_loop.induct)
  case (1 k h)
  then show ?case by simp
next
  case (2 q folder rest k h)
  obtain r h' where d: "delete q folder h = (r, h')" by (cases "delete q folder h") auto
  from "2.prems" have "path_below p q" and rest: "list_all (\<lambda>(q, n). path_below p q) rest" by simp_all
  from delete_keeps_root [OF "2.prems"(1) this(1), of folder] d have h': "folder_at h' p" by simp
  show ?case
  proof (cases r)
    case (Inl e)
    from "2.IH"(1) [OF d [symmetric] Inl h' rest] d Inl show ?thesis by simp
  next
    case (Inr u)
    from "2.IH"(2) [OF d [symmetric] Inr h' rest] d Inr show ?thesis by simp
  qed
qed

lemma cleanEmptyDirectories_prev_keeps_root:
  assumes "folder_at h (attachmentPath settings)"
    and "attachmentPath settings \<noteq> []" and "attachmentPath settings \<noteq> ''/''"
  shows "folder_at (cleanEmptyDirectories_prev settings h) (attachmentPath settings)"
proof -
  let ?p = "attachmentPath settings"
  from assms(1) obtain nm cs where res: "getAbstractFileByPath h ?p = Some (TFolder nm cs)"
    by (auto simp: folder_at_def split: option.splits node.splits)
  let ?es = "rev (findEmptyFolders ?p cs [])"
  have "list_all (\<lambda>(q, n). path_below ?p q) (findEmptyFolders ?p cs [])"
    by (rule findEmptyFolders_path_below [OF assms(2,3)]) simp
  then have "list_all (\<lambda>(q, n). path_below ?p q) ?es" by (simp add: list_all_iff)
  from delete_loop_keeps_root [OF assms(1) this, of 0]
  have "folder_at (snd (delete_loop ?es 0 h)) ?p" .
  with res show ?thesis
    by (cases "delete_loop ?es 0 h")
      (simp add: cleanEmptyDirectories_prev_def Let_def folder_at_notify)
qed

lemma remove_at_single: "remove_at [s] v = remove_named s v"
  by (simp add: remove_at_def)

lemma remove_at_Cons:
  "ss \<noteq> [] \<Longrightarrow> remove_at (s # ss) v = modify [s] (remove_at ss) v"
proof (induction v)
  case Nil
  then show ?case by (simp add: remove_at_def)
next
  case (Cons n v)
  then show ?case by (cases n) (simp_all add: remove_at_def)
qed

lemma find_None_names:
  "find (\<lambda>n. node_name n = s) v = None \<longleftrightarrow> s \<notin> node_name ` set v"
  by (auto simp: find_None_iff)

lemma find_Some_name:
  "find (\<lambda>n. node_name n = s) v = Some n \<Longrightarrow> node_name n = s \<and> n \<in> set v"
  by (auto simp: find_Some_iff)

lemma names_remove_named: "node_name ` set (remove_named x v) \<subseteq> node_name ` set v"
  by (induction v) auto

lemma set_remove_named: "set (remove_named x v) \<subseteq> set v"
  by (induction v) auto

lemma names_modify_single: "node_name ` set (modify [s] f v) = node_name ` set v"
proof (induction v)
  case Nil
  show ?case by simp
next
  case (Cons n v)
  then show ?case by (cases n) auto
qed

lemma wf_remove_named: "wf_nodes v \<Longrightarrow> wf_nodes (remove_named x v)"
proof (induction v rule: wf_nodes.induct)
  case 1
  show ?case by simp
next
  case (2 nm c cs)
  with names_remove_named [of x cs] show ?case by auto
next
  case (3 nm sub cs)
  with names_remove_named [of x cs] show ?case by auto
qed

lemma wf_modify_single:
  assumes "\<And>sub. wf_nodes sub \<Longrightarrow> wf_nodes (f sub)"
  shows "wf_nodes v \<Longrightarrow> wf_nodes (modify [s] f v)"
proof (induction v rule: wf_nodes.induct)
  case 1
  show ?case by simp
next
  case (2 nm c cs)
  with names_modify_single [of s f cs] show ?case by auto
next
  case (3 nm sub cs)
  with names_modify_single [of s f cs] assms show ?case by auto
qed

lemma wf_remove_at: "segs \<noteq> [] \<Longrightarrow> wf_nodes v \<Longrightarrow> wf_nodes (remove_at segs v)"
proof (induction segs arbitrary: v)
  case Nil
  then show ?case by simp
next
  case (Cons s ss)
  show ?case
  proof (cases "ss = []")
    case True
    with Cons.prems show ?thesis by (simp add: remove_at_single wf_remove_named)
  next
    case False
    have "wf_nodes (modify [s] (remove_at ss) v)"
      using wf_modify_single [of "remove_at ss" v s] Cons.IH [OF False] Cons.prems(2) by blast
    with False show ?thesis by (simp add: remove_at_Cons)
  qed
qed

lemma find_remove_named:
  "wf_nodes v \<Longrightarrow> find (\<lambda>n. node_name n = s) (remove_named x v)
     = (if s = x then None else find (\<lambda>n. node_name n = s) v)"
proof (induction v rule: wf_nodes.induct)
  case 1
  show ?case by simp
next
  case (2 nm c cs)
  then show ?case by (auto simp: find_None_names)
next
  case (3 nm sub cs)
  then show ?case by (auto simp: find_None_names)
qed

lemma find_modify_other:
  "s \<noteq> x \<Longrightarrow> find (\<lambda>n. node_name n = s) (modify (x # xs) f v) = find (\<lambda>n. node_name n = s) v"
proof (induction v)
  case Nil
  show ?case by simp
next
  case (Cons n v)
  then show ?case by (cases n) auto
qed

lemma wf_find_sub:
  "wf_nodes v \<Longrightarrow> find (\<lambda>n. node_name n = s) v = Some (TFolder nm sub) \<Longrightarrow> wf_nodes sub"
  by (induction v rule: wf_nodes.induct) (auto split: if_splits)

lemma holds_no_file_remove_named:
  "list_all holds_no_file v \<Longrightarrow> list_all holds_no_file (remove_named x v)"
  using set_remove_named [of x v] by (auto simp: list_all_iff)

lemma holds_no_file_folder: "holds_no_file (TFolder nm sub) \<longleftrightarrow> list_all holds_no_file sub"
  using holds_no_file_TFolder [of nm sub "[]"] by (simp add: fileNodes_Nil_iff)

lemma holds_no_file_modify_single:
  assumes "\<And>sub. list_all holds_no_file sub \<Longrightarrow> list_all holds_no_file (f sub)"
  shows "list_all holds_no_file v \<Longrightarrow> list_all holds_no_file (modify [s] f v)"
proof (induction v)
  case Nil
  show ?case by simp
next
  case (Cons n v)
  then show ?case using assms by (cases n) (auto simp: holds_no_file_folder)
qed

lemma holds_no_file_remove_at:
  "segs \<noteq> [] \<Longrightarrow> list_all holds_no_file v \<Longrightarrow> list_all holds_no_file (remove_at segs v)"
proof (induction segs arbitrary: v)
  case Nil
  then show ?case by simp
next
  case (Cons s ss)
  show ?case
  proof (cases "ss = []")
    case True
    with Cons.prems show ?thesis by (simp add: remove_at_single holds_no_file_remove_named)
  next
    case False
    have "list_all holds_no_file (modify [s] (remove_at ss) v)"
      using holds_no_file_modify_single [of "remove_at ss" v s] Cons.IH [OF False] Cons.prems(2)
      by blast
    with False show ?thesis by (simp add: remove_at_Cons)
  qed
qed

lemma fileNodes_Cons: "fileNodes fp (n # v) = fileNodes fp [n] @ fileNodes fp v"
  using fileNodes_append [of fp "[n]" v] by simp

lemma remove_named_free:
  "(case find (\<lambda>n. node_name n = s) v of None \<Rightarrow> True | Some n \<Rightarrow> holds_no_file n)
   \<Longrightarrow> fileNodes fp (remove_named s v) = fileNodes fp v"
proof (induction v)
  case Nil
  show ?case by simp
next
  case (Cons n v)
  show ?case
  proof (cases "node_name n = s")
    case True
    with Cons.prems have "holds_no_file n" by simp
    then have "fileNodes fp [n] = []" by (simp add: holds_no_file_def)
    with True show ?thesis using fileNodes_Cons [of fp n v] by simp
  next
    case False
    with Cons have "fileNodes fp (remove_named s v) = fileNodes fp v" by simp
    with False show ?thesis
      using fileNodes_Cons [of fp n v] fileNodes_Cons [of fp n "remove_named s v"] by simp
  qed
qed

lemma modify_single_files:
  assumes "\<And>nm sub fp'. find (\<lambda>n. node_name n = s) v = Some (TFolder nm sub)
              \<Longrightarrow> fileNodes fp' (f sub) = fileNodes fp' sub"
  shows "fileNodes fp (modify [s] f v) = fileNodes fp v"
  using assms
proof (induction v)
  case Nil
  show ?case by simp
next
  case (Cons n v)
  show ?case
  proof (cases n)
    case (TFile nm c)
    show ?thesis
    proof (cases "nm = s")
      case True
      with TFile show ?thesis by simp
    next
      case False
      with TFile Cons.prems have "\<And>nm sub fp'. find (\<lambda>n. node_name n = s) v = Some (TFolder nm sub)
              \<Longrightarrow> fileNodes fp' (f sub) = fileNodes fp' sub" by simp
      from Cons.IH [OF this] TFile False show ?thesis by simp
    qed
  next
    case (TFolder nm sub)
    show ?thesis
    proof (cases "nm = s")
      case True
      with TFolder Cons.prems [of nm sub] show ?thesis by simp
    next
      case False
      with TFolder Cons.prems have "\<And>nm sub fp'. find (\<lambda>n. node_name n = s) v = Some (TFolder nm sub)
              \<Longrightarrow> fileNodes fp' (f sub) = fileNodes fp' sub" by simp
      from Cons.IH [OF this] TFolder False show ?thesis by simp
    qed
  qed
qed

lemma remove_at_free:
  "segs \<noteq> [] \<Longrightarrow> free_at v segs \<Longrightarrow> fileNodes fp (remove_at segs v) = fileNodes fp v"
proof (induction segs arbitrary: v fp)
  case Nil
  then show ?case by simp
next
  case (Cons s ss)
  show ?case
  proof (cases "ss = []")
    case True
    with Cons.prems(2) show ?thesis
      by (simp add: remove_at_single remove_named_free free_at_def)
  next
    case False
    have "fileNodes fp' (remove_at ss sub) = fileNodes fp' sub"
      if "find (\<lambda>n. node_name n = s) v = Some (TFolder nm sub)" for nm sub fp'
    proof -
      from that False Cons.prems(2) have "free_at sub ss"
        by (simp add: free_at_def lookup_Cons)
      from Cons.IH [OF False this] show ?thesis .
    qed
    then have "fileNodes fp (modify [s] (remove_at ss) v) = fileNodes fp v"
      by (rule modify_single_files)
    with False show ?thesis by (simp add: remove_at_Cons)
  qed
qed

lemma lookup_same_find:
  "find (\<lambda>n. node_name n = s) v' = find (\<lambda>n. node_name n = s) v
   \<Longrightarrow> lookup v' (s # t) = lookup v (s # t)"
  by (simp add: lookup_Cons)

lemma lookup_find_None:
  "find (\<lambda>n. node_name n = s) v = None \<Longrightarrow> lookup v (s # t) = None"
  by (simp add: lookup_Cons)

lemma lookup_find_TFile:
  "find (\<lambda>n. node_name n = s) v = Some (TFile nm c)
   \<Longrightarrow> lookup v (s # t) = (if t = [] then Some (TFile nm c) else None)"
  by (simp add: lookup_Cons)

lemma lookup_find_TFolder:
  "find (\<lambda>n. node_name n = s) v = Some (TFolder nm sub)
   \<Longrightarrow> lookup v (s # t) = (if t = [] then Some (TFolder nm sub) else lookup sub t)"
  by (simp add: lookup_Cons)

lemma remove_at_keeps_free:
  "segs \<noteq> [] \<Longrightarrow> wf_nodes v \<Longrightarrow> free_at v t \<Longrightarrow> free_at (remove_at segs v) t"
proof (induction segs arbitrary: v t)
  case Nil
  then show ?case by simp
next
  case (Cons x xs)
  show ?case
  proof (cases t)
    case Nil
    then show ?thesis by (simp add: free_at_def)
  next
    case t: (Cons s' t')
    show ?thesis
    proof (cases "xs = []")
      case True
      then have v': "remove_at (x # xs) v = remove_named x v" by (simp add: remove_at_single)
      show ?thesis
      proof (cases "s' = x")
        case True
        with Cons.prems(2) have "find (\<lambda>n. node_name n = s') (remove_named x v) = None"
          by (simp add: find_remove_named)
        from lookup_find_None [OF this] show ?thesis
          by (simp add: v' t free_at_def)
      next
        case False
        with Cons.prems(2) have "find (\<lambda>n. node_name n = s') (remove_named x v)
            = find (\<lambda>n. node_name n = s') v"
          by (simp add: find_remove_named)
        from lookup_same_find [OF this] Cons.prems(3) show ?thesis
          by (simp add: v' t free_at_def)
      qed
    next
      case False
      then have v': "remove_at (x # xs) v = modify [x] (remove_at xs) v"
        by (simp add: remove_at_Cons)
      show ?thesis
      proof (cases "s' = x")
        case neq: False
        then have "find (\<lambda>n. node_name n = s') (modify [x] (remove_at xs) v)
            = find (\<lambda>n. node_name n = s') v"
          by (simp add: find_modify_other)
        from lookup_same_find [OF this] Cons.prems(3) show ?thesis
          by (simp add: v' t free_at_def)
      next
        case True
        show ?thesis
        proof (cases "find (\<lambda>n. node_name n = x) v")
          case None
          then have "find (\<lambda>n. node_name n = x) (modify [x] (remove_at xs) v) = None"
            by (simp add: find_modify)
          from lookup_find_None [OF this] True show ?thesis
            by (simp add: v' t free_at_def)
        next
          case (Some n)
          show ?thesis
          proof (cases n)
            case (TFile nm c)
            with Some have "find (\<lambda>n. node_name n = x) (modify [x] (remove_at xs) v)
                = find (\<lambda>n. node_name n = x) v"
              by (simp add: find_modify)
            from lookup_same_find [OF this] True Cons.prems(3) show ?thesis
              by (simp add: v' t free_at_def)
          next
            case (TFolder nm sub)
            from wf_find_sub [OF Cons.prems(2)] Some TFolder have wf_sub: "wf_nodes sub" by simp
            from Some TFolder have old: "find (\<lambda>n. node_name n = x) v = Some (TFolder nm sub)"
              by simp
            then have new: "find (\<lambda>n. node_name n = x) (modify [x] (remove_at xs) v)
                = Some (TFolder nm (remove_at xs sub))"
              by (simp add: find_modify)
            show ?thesis
            proof (cases "t' = []")
              case True
              with lookup_find_TFolder [OF old, of t'] \<open>s' = x\<close> Cons.prems(3)
              have "list_all holds_no_file sub"
                by (simp add: t free_at_def holds_no_file_folder)
              from holds_no_file_remove_at [OF False this]
              show ?thesis using lookup_find_TFolder [OF new, of t'] \<open>s' = x\<close> True
                by (simp add: v' t free_at_def holds_no_file_folder)
            next
              case ne: False
              with lookup_find_TFolder [OF old, of t'] \<open>s' = x\<close> Cons.prems(3)
              have "free_at sub t'"
                by (simp add: t free_at_def)
              from Cons.IH [OF False wf_sub this]
              show ?thesis using lookup_find_TFolder [OF new, of t'] \<open>s' = x\<close> ne
                by (simp add: v' t free_at_def)
            qed
          qed
        qed
      qed
    qed
  qed
qed

lemma splitOn_ok_name: "ok_name nm \<Longrightarrow> splitOn (CHR ''/'') nm = [nm]"
proof -
  have "CHR ''/'' \<notin> set s \<Longrightarrow> splitOn (CHR ''/'') s = [s]" for s
    by (induction s) auto
  then show "ok_name nm \<Longrightarrow> splitOn (CHR ''/'') nm = [nm]" by (simp add: ok_name_def)
qed

lemma splitOn_childPath:
  assumes "fp \<noteq> ''/''" and "ok_name nm"
  shows "splitOn (CHR ''/'') (childPath fp nm) = splitOn (CHR ''/'') fp @ [nm]"
  using assms splitOn_append [of "CHR ''/''" fp nm]
  by (simp add: childPath_def splitOn_ok_name)

lemma wf_find_ok:
  "wf_nodes v \<Longrightarrow> find (\<lambda>n. node_name n = s) v = Some n \<Longrightarrow> ok_name s"
  by (induction v rule: wf_nodes.induct) (auto split: if_splits)

lemma lookup_hd_name:
  assumes "lookup cs ns = Some n"
  shows "ns \<noteq> [] \<and> hd ns \<in> node_name ` set cs"
proof (cases ns)
  case Nil
  with assms show ?thesis by simp
next
  case (Cons s t)
  with assms have "find (\<lambda>n. node_name n = s) cs \<noteq> None"
    by (auto simp: lookup_Cons split: if_splits option.splits)
  with Cons show ?thesis by (simp add: find_None_names)
qed

lemma lookup_skip:
  assumes "lookup cs ns = Some n" and "node_name n0 \<notin> node_name ` set cs"
  shows "lookup (n0 # cs) ns = Some n"
proof -
  from lookup_hd_name [OF assms(1)] obtain s t where ns: "ns = s # t" and "s \<in> node_name ` set cs"
    by (cases ns) auto
  with assms(2) have "node_name n0 \<noteq> s" by auto
  then have "find (\<lambda>n. node_name n = s) (n0 # cs) = find (\<lambda>n. node_name n = s) cs" by simp
  from lookup_same_find [OF this, of t] assms(1) ns show ?thesis by simp
qed

lemma lookup_append:
  "lookup v r = Some (TFolder nm cs) \<Longrightarrow> ns \<noteq> [] \<Longrightarrow> lookup v (r @ ns) = lookup cs ns"
proof (induction r arbitrary: v)
  case Nil
  then show ?case by simp
next
  case (Cons s ss)
  show ?case
  proof (cases "ss = []")
    case True
    with Cons.prems have "find (\<lambda>n. node_name n = s) v = Some (TFolder nm cs)"
      by (simp add: lookup_Cons)
    from lookup_find_TFolder [OF this, of ns] True Cons.prems(2) show ?thesis by simp
  next
    case False
    with Cons.prems obtain nm' sub' where
      f: "find (\<lambda>n. node_name n = s) v = Some (TFolder nm' sub')"
      and l: "lookup sub' ss = Some (TFolder nm cs)"
      by (auto simp: lookup_Cons split: option.splits node.splits)
    from lookup_find_TFolder [OF f, of "ss @ ns"] False Cons.IH [OF l Cons.prems(2)]
    show ?thesis by simp
  qed
qed

lemma wf_lookup:
  "wf_nodes v \<Longrightarrow> lookup v r = Some (TFolder nm cs) \<Longrightarrow> wf_nodes cs"
proof (induction r arbitrary: v)
  case Nil
  then show ?case by simp
next
  case (Cons s ss)
  show ?case
  proof (cases "ss = []")
    case True
    with Cons.prems have "find (\<lambda>n. node_name n = s) v = Some (TFolder nm cs)"
      by (simp add: lookup_Cons)
    from wf_find_sub [OF Cons.prems(1) this] show ?thesis .
  next
    case False
    with Cons.prems obtain nm' sub' where
      f: "find (\<lambda>n. node_name n = s) v = Some (TFolder nm' sub')"
      and l: "lookup sub' ss = Some (TFolder nm cs)"
      by (auto simp: lookup_Cons split: option.splits node.splits)
    from Cons.IH [OF wf_find_sub [OF Cons.prems(1) f] l] show ?thesis .
  qed
qed

lemma findEmptyFolders_located:
  "wf_nodes cs \<Longrightarrow> fp \<noteq> [] \<Longrightarrow> fp \<noteq> ''/''
   \<Longrightarrow> (\<And>ns n. lookup cs ns = Some n \<Longrightarrow> lookup v0 (splitOn (CHR ''/'') fp @ ns) = Some n)
   \<Longrightarrow> list_all (\<lambda>(q, n). lookup v0 (splitOn (CHR ''/'') q) = Some n) acc
   \<Longrightarrow> list_all (\<lambda>(q, n). lookup v0 (splitOn (CHR ''/'') q) = Some n) (findEmptyFolders fp cs acc)"
proof (induction fp cs acc rule: findEmptyFolders.induct)
  case (1 fp acc)
  then show ?case by simp
next
  case (2 fp nm c cs acc)
  from "2.prems"(1) have wf: "wf_nodes cs" and fresh: "nm \<notin> node_name ` set cs" by simp_all
  have "lookup v0 (splitOn (CHR ''/'') fp @ ns) = Some n" if "lookup cs ns = Some n" for ns n
    using lookup_skip [OF that, of "TFile nm c"] fresh "2.prems"(4) by simp
  from "2.IH" [OF wf "2.prems"(2,3) this "2.prems"(5)] show ?case by simp
next
  case (3 fp nm sub cs acc)
  let ?p = "childPath fp nm"
  let ?acc1 = "acc @ findEmptyFolders ?p sub []"
  let ?hasFiles = "list_ex is_TFile sub"
  let ?hasNonEmpty = "list_ex (\<lambda>c. \<not> is_TFile c \<and> (childPath ?p (node_name c), c) \<notin> set ?acc1) sub"
  let ?next = "if \<not> ?hasFiles \<and> \<not> ?hasNonEmpty then ?acc1 @ [(?p, TFolder nm sub)] else ?acc1"
  from "3.prems"(1) have wf: "wf_nodes cs" and wf_sub: "wf_nodes sub"
    and fresh: "nm \<notin> node_name ` set cs" and ok: "ok_name nm" by simp_all
  from "3.prems"(3) have p: "?p = fp @ ''/'' @ nm" by (simp add: childPath_def)
  with "3.prems"(2) have p_ok: "?p \<noteq> []" "?p \<noteq> ''/''" by (cases fp; simp)+
  have seg: "splitOn (CHR ''/'') ?p = splitOn (CHR ''/'') fp @ [nm]"
    by (rule splitOn_childPath [OF "3.prems"(3) ok])
  have path_below_sub: "lookup v0 (splitOn (CHR ''/'') ?p @ ns) = Some n" if "lookup sub ns = Some n" for ns n
  proof -
    from lookup_hd_name [OF that] have "ns \<noteq> []" by simp
    then have "lookup (TFolder nm sub # cs) (nm # ns) = Some n"
      using that by (simp add: lookup_Cons)
    from "3.prems"(4) [OF this] seg show ?thesis by simp
  qed
  have sub_ok: "list_all (\<lambda>(q, n). lookup v0 (splitOn (CHR ''/'') q) = Some n) (findEmptyFolders ?p sub [])"
    by (rule "3.IH"(1) [OF refl wf_sub p_ok path_below_sub]) simp_all
  with "3.prems"(5) have acc1: "list_all (\<lambda>(q, n). lookup v0 (splitOn (CHR ''/'') q) = Some n) ?acc1"
    by simp
  have "lookup (TFolder nm sub # cs) [nm] = Some (TFolder nm sub)" by simp
  from "3.prems"(4) [OF this] seg
  have "lookup v0 (splitOn (CHR ''/'') ?p) = Some (TFolder nm sub)" by simp
  with acc1 have next_ok: "list_all (\<lambda>(q, n). lookup v0 (splitOn (CHR ''/'') q) = Some n) ?next"
    by simp
  have rest: "lookup v0 (splitOn (CHR ''/'') fp @ ns) = Some n" if "lookup cs ns = Some n" for ns n
    using lookup_skip [OF that, of "TFolder nm sub"] fresh "3.prems"(4) by simp
  from "3.IH"(2) [OF refl refl refl refl wf "3.prems"(2,3) rest next_ok] show ?case
    by (simp add: Let_def)
qed

lemma delete_vault:
  "vault (snd (delete q folder h)) = vault h
   \<or> vault (snd (delete q folder h)) = remove_at (splitOn (CHR ''/'') q) (vault h)"
  by (simp add: delete_def Let_def issue_def remove_at_def)

lemma delete_loop_keeps_files:
  "wf_nodes (vault h) \<Longrightarrow> list_all (\<lambda>(q, n). free_at (vault h) (splitOn (CHR ''/'') q)) es
   \<Longrightarrow> fileNodes fp (vault (snd (delete_loop es k h))) = fileNodes fp (vault h)"
proof (induction es k h rule: delete_loop.induct)
  case (1 k h)
  show ?case by simp
next
  case (2 q folder rest k h)
  obtain r h' where d: "delete q folder h = (r, h')" by (cases "delete q folder h") auto
  let ?segs = "splitOn (CHR ''/'') q"
  have ne: "?segs \<noteq> []" by (rule splitOn_not_Nil)
  from "2.prems"(2) have free: "free_at (vault h) ?segs"
    and rest: "list_all (\<lambda>(q, n). free_at (vault h) (splitOn (CHR ''/'') q)) rest" by simp_all
  from delete_vault [of q folder h] d
  have v': "vault h' = vault h \<or> vault h' = remove_at ?segs (vault h)" by simp
  have wf': "wf_nodes (vault h')"
    using v' "2.prems"(1) wf_remove_at [OF ne] by auto
  have files': "fileNodes fp (vault h') = fileNodes fp (vault h)"
    using v' remove_at_free [OF ne free] by auto
  have rest': "list_all (\<lambda>(q, n). free_at (vault h') (splitOn (CHR ''/'') q)) rest"
    using v' rest remove_at_keeps_free [OF ne "2.prems"(1)] by (auto simp: list_all_iff)
  show ?case
  proof (cases r)
    case (Inl e)
    from "2.IH"(1) [OF d [symmetric] Inl wf' rest'] d Inl files' show ?thesis by simp
  next
    case (Inr u)
    from "2.IH"(2) [OF d [symmetric] Inr wf' rest'] d Inr files' show ?thesis by simp
  qed
qed

lemma cleanEmptyDirectories_prev_keeps_files:
  assumes "wf_nodes (vault h)"
  shows "fileNodes fp (vault (cleanEmptyDirectories_prev settings h)) = fileNodes fp (vault h)"
proof (cases "folder_at h (attachmentPath settings)")
  case False
  then have "cleanEmptyDirectories_prev settings h = h"
    unfolding cleanEmptyDirectories_prev_def folder_at_def
    by (auto split: option.splits node.splits)
  then show ?thesis by simp
next
  case True
  let ?p = "attachmentPath settings"
  let ?r = "splitOn (CHR ''/'') ?p"
  from True obtain nm cs where res: "lookup (vault h) ?r = Some (TFolder nm cs)"
    by (auto simp: folder_at_def getAbstractFileByPath_def split: option.splits node.splits)
  have p_ne: "?p \<noteq> []"
  proof
    assume "?p = []"
    with res have "find (\<lambda>n. node_name n = []) (vault h) = Some (TFolder nm cs)" by simp
    from wf_find_ok [OF assms this] show False by (simp add: ok_name_def)
  qed
  have p_root: "?p \<noteq> ''/''"
  proof
    assume "?p = ''/''"
    with res obtain n where "find (\<lambda>n. node_name n = []) (vault h) = Some n"
      by (auto split: option.splits)
    from wf_find_ok [OF assms this] show False by (simp add: ok_name_def)
  qed
  let ?found = "findEmptyFolders ?p cs []"
  have located: "list_all (\<lambda>(q, n). lookup (vault h) (splitOn (CHR ''/'') q) = Some n) ?found"
  proof (rule findEmptyFolders_located [OF wf_lookup [OF assms res] p_ne p_root])
    fix ns n assume l: "lookup cs ns = Some n"
    from lookup_hd_name [OF l] have "ns \<noteq> []" by simp
    from lookup_append [OF res this] l show "lookup (vault h) (?r @ ns) = Some n" by simp
  qed simp
  have "list_all (\<lambda>(q, n). holds_no_file n) ?found"
    by (rule findEmptyFolders_no_files) simp
  with located have "list_all (\<lambda>(q, n). free_at (vault h) (splitOn (CHR ''/'') q)) ?found"
    unfolding list_all_iff free_at_def by fastforce
  then have "list_all (\<lambda>(q, n). free_at (vault h) (splitOn (CHR ''/'') q)) (rev ?found)"
    by (simp add: list_all_iff)
  from delete_loop_keeps_files [OF assms this, of fp 0]
  have "fileNodes fp (vault (snd (delete_loop (rev ?found) 0 h))) = fileNodes fp (vault h)" .
  with res show ?thesis
    by (cases "delete_loop (rev ?found) 0 h")
      (simp add: cleanEmptyDirectories_prev_def getAbstractFileByPath_def Let_def notify_def)
qed

lemma fileNodes_prune: "fileNodes fp (prune cs) = fileNodes fp cs"
proof (induction fp cs rule: fileNodes.induct)
  case (1 fp)
  show ?case by simp
next
  case (2 fp nm c cs)
  then show ?case by simp
next
  case (3 fp nm sub cs)
  then show ?case by (auto dest: fileNodes_Nil_any)
qed

lemma prune_no_prunable: "\<not> has_prunable (prune cs)"
proof (induction cs rule: prune.induct)
  case 1
  show ?case by simp
next
  case (2 nm c cs)
  then show ?case by simp
next
  case (3 nm sub cs)
  then show ?case by (simp add: fileNodes_prune)
qed

lemma names_prune: "node_name ` set (prune cs) \<subseteq> node_name ` set cs"
  by (induction cs rule: prune.induct) auto

lemma emptyPaths_hd: "ns \<in> set (emptyPaths cs) \<Longrightarrow> ns \<noteq> [] \<and> hd ns \<in> node_name ` set cs"
  by (induction cs arbitrary: ns rule: emptyPaths.induct) (auto split: if_splits)

lemma remove_at_skip:
  assumes "ns \<noteq> []" and "hd ns \<noteq> node_name n0"
  shows "remove_at ns (n0 # x) = n0 # remove_at ns x"
proof (cases ns)
  case Nil
  with assms show ?thesis by simp
next
  case (Cons s t)
  with assms have neq: "node_name n0 \<noteq> s" by auto
  show ?thesis
  proof (cases "t = []")
    case True
    with Cons neq show ?thesis by (simp add: remove_at_single)
  next
    case False
    with Cons neq show ?thesis by (cases n0) (simp_all add: remove_at_def)
  qed
qed

lemma foldl_remove_at_skip:
  "(\<And>ns. ns \<in> set l \<Longrightarrow> ns \<noteq> [] \<and> hd ns \<noteq> node_name n0)
   \<Longrightarrow> foldl (\<lambda>c ns. remove_at ns c) (n0 # x) l = n0 # foldl (\<lambda>c ns. remove_at ns c) x l"
proof (induction l arbitrary: x)
  case Nil
  show ?case by simp
next
  case (Cons ns l)
  from Cons.prems [of ns] have "remove_at ns (n0 # x) = n0 # remove_at ns x"
    using remove_at_skip by simp
  with Cons.IH [of "remove_at ns x"] Cons.prems show ?case by simp
qed

lemma remove_at_no_name:
  assumes "ns \<noteq> []" and "hd ns \<notin> node_name ` set x"
  shows "remove_at ns x = x"
  using assms(2)
proof (induction x)
  case Nil
  with assms(1) show ?case by (cases ns; cases "tl ns") (simp_all add: remove_at_def)
next
  case (Cons n0 x)
  then have "hd ns \<noteq> node_name n0" "hd ns \<notin> node_name ` set x" by auto
  with remove_at_skip [OF assms(1) this(1), of x] Cons.IH show ?case by simp
qed

lemma foldl_remove_at_no_name:
  "(\<And>ns. ns \<in> set l \<Longrightarrow> ns \<noteq> [] \<and> hd ns \<notin> node_name ` set x)
   \<Longrightarrow> foldl (\<lambda>c ns. remove_at ns c) x l = x"
proof (induction l)
  case Nil
  show ?case by simp
next
  case (Cons ns l)
  from Cons.prems [of ns] have "remove_at ns x = x" using remove_at_no_name by simp
  with Cons show ?case by simp
qed

lemma remove_at_into:
  "ns \<noteq> [] \<Longrightarrow> remove_at (nm # ns) (TFolder nm sub # y) = TFolder nm (remove_at ns sub) # y"
  by (simp add: remove_at_def)

lemma foldl_remove_at_into:
  "(\<And>ns. ns \<in> set l \<Longrightarrow> ns \<noteq> [])
   \<Longrightarrow> foldl (\<lambda>c ns. remove_at ns c) (TFolder nm sub # y) (map ((#) nm) l)
       = TFolder nm (foldl (\<lambda>c ns. remove_at ns c) sub l) # y"
proof (induction l arbitrary: sub)
  case Nil
  show ?case by simp
next
  case (Cons ns l)
  from Cons.prems [of ns] have "ns \<noteq> []" by simp
  from remove_at_into [OF this, of nm sub y] Cons.IH [of "remove_at ns sub"] Cons.prems
  show ?case by simp
qed

lemma foldl_emptyPaths_prune:
  "wf_nodes cs \<Longrightarrow> foldl (\<lambda>c ns. remove_at ns c) cs (rev (emptyPaths cs)) = prune cs"
proof (induction cs rule: wf_nodes.induct)
  case 1
  show ?case by simp
next
  case (2 nm c cs)
  then have fresh: "nm \<notin> node_name ` set cs" and wf: "wf_nodes cs" by simp_all
  have "ns \<noteq> [] \<and> hd ns \<noteq> node_name (TFile nm c)" if "ns \<in> set (rev (emptyPaths cs))" for ns
    using emptyPaths_hd [of ns cs] that fresh by auto
  from foldl_remove_at_skip [of "rev (emptyPaths cs)" "TFile nm c" cs, OF this] "2.IH" [OF wf]
  show ?case by simp
next
  case (3 nm sub cs)
  then have fresh: "nm \<notin> node_name ` set cs" and wf: "wf_nodes cs" and wf_sub: "wf_nodes sub"
    by simp_all
  let ?rm = "\<lambda>c ns. remove_at ns c"
  have "ns \<noteq> [] \<and> hd ns \<noteq> node_name (TFolder nm sub)" if "ns \<in> set (rev (emptyPaths cs))" for ns
    using emptyPaths_hd [of ns cs] that fresh by auto
  from foldl_remove_at_skip [of "rev (emptyPaths cs)" "TFolder nm sub" cs, OF this] "3.IH"(2) [OF wf]
  have first: "foldl ?rm (TFolder nm sub # cs) (rev (emptyPaths cs)) = TFolder nm sub # prune cs"
    by simp
  show ?case
  proof (cases "fileNodes [] sub = []")
    case True
    have gone: "remove_at [nm] (TFolder nm sub # prune cs) = prune cs"
      by (simp add: remove_at_single)
    have "ns \<noteq> [] \<and> hd ns \<notin> node_name ` set (prune cs)"
      if "ns \<in> set (rev (map ((#) nm) (emptyPaths sub)))" for ns
      using that fresh names_prune [of cs] by auto
    from foldl_remove_at_no_name [of "rev (map ((#) nm) (emptyPaths sub))" "prune cs", OF this]
    have "foldl ?rm (prune cs) (rev (map ((#) nm) (emptyPaths sub))) = prune cs" .
    with True first gone show ?thesis by simp
  next
    case False
    have "foldl ?rm (TFolder nm sub # prune cs) (map ((#) nm) (rev (emptyPaths sub)))
        = TFolder nm (foldl ?rm sub (rev (emptyPaths sub))) # prune cs"
      by (rule foldl_remove_at_into) (use emptyPaths_hd [of _ sub] in auto)
    with False first "3.IH"(1) [OF wf_sub] show ?thesis by (simp add: rev_map)
  qed
qed

lemma is_TFile_holds: "is_TFile c \<Longrightarrow> \<not> holds_no_file c"
  by (cases c) (simp_all add: holds_no_file_TFile)

lemma findEmptyFolders_mono: "set acc \<subseteq> set (findEmptyFolders fp cs acc)"
proof (induction fp cs acc rule: findEmptyFolders.induct)
  case (1 fp acc)
  show ?case by simp
next
  case (2 fp nm c cs acc)
  then show ?case by simp
next
  case (3 fp nm sub cs acc)
  let ?p = "childPath fp nm"
  let ?acc1 = "acc @ findEmptyFolders ?p sub []"
  let ?hasFiles = "list_ex is_TFile sub"
  let ?hasNonEmpty = "list_ex (\<lambda>c. \<not> is_TFile c \<and> (childPath ?p (node_name c), c) \<notin> set ?acc1) sub"
  let ?next = "if \<not> ?hasFiles \<and> \<not> ?hasNonEmpty then ?acc1 @ [(?p, TFolder nm sub)] else ?acc1"
  have "set acc \<subseteq> set ?next" by auto
  with "3.IH"(2) [OF refl refl refl refl] show ?case
    by (auto simp: Let_def)
qed

lemma findEmptyFolders_complete:
  "TFolder nm sub \<in> set cs \<Longrightarrow> holds_no_file (TFolder nm sub)
   \<Longrightarrow> (childPath fp nm, TFolder nm sub) \<in> set (findEmptyFolders fp cs acc)"
proof (induction fp cs acc arbitrary: nm sub rule: findEmptyFolders.induct)
  case (1 fp acc)
  then show ?case by simp
next
  case (2 fp nm' c cs acc)
  then show ?case by simp
next
  case (3 fp nm' sub' cs acc)
  let ?p = "childPath fp nm'"
  let ?acc1 = "acc @ findEmptyFolders ?p sub' []"
  let ?hasFiles = "list_ex is_TFile sub'"
  let ?hasNonEmpty = "list_ex (\<lambda>c. \<not> is_TFile c \<and> (childPath ?p (node_name c), c) \<notin> set ?acc1) sub'"
  let ?next = "if \<not> ?hasFiles \<and> \<not> ?hasNonEmpty then ?acc1 @ [(?p, TFolder nm' sub')] else ?acc1"
  have unfold: "findEmptyFolders fp (TFolder nm' sub' # cs) acc = findEmptyFolders fp cs ?next"
    by (simp add: Let_def)
  show ?case
  proof (cases "TFolder nm sub = TFolder nm' sub'")
    case True
    with "3.prems"(2) have free: "list_all holds_no_file sub'"
      by (simp add: holds_no_file_folder)
    then have nofiles: "\<not> ?hasFiles"
      using is_TFile_holds by (auto simp: list_ex_iff list_all_iff)
    have "(childPath ?p (node_name c), c) \<in> set ?acc1" if "c \<in> set sub'" "\<not> is_TFile c" for c
    proof -
      from that(2) obtain n s where c: "c = TFolder n s" by (cases c) auto
      from free that(1) have "holds_no_file c" by (simp add: list_all_iff)
      from "3.IH"(1) [OF refl, of n s] that(1) this c show ?thesis by simp
    qed
    then have "\<not> ?hasNonEmpty" by (auto simp: list_ex_iff)
    with nofiles have "(?p, TFolder nm' sub') \<in> set ?next" by simp
    with findEmptyFolders_mono [of ?next fp cs] True unfold show ?thesis by auto
  next
    case False
    with "3.prems"(1) have "TFolder nm sub \<in> set cs" by auto
    from "3.IH"(2) [OF refl refl refl refl this "3.prems"(2)] unfold show ?thesis by simp
  qed
qed

lemma findEmptyFolders_check:
  assumes "list_all (\<lambda>(q, n). holds_no_file n) acc"
  shows "(\<not> list_ex is_TFile sub
          \<and> \<not> list_ex (\<lambda>c. \<not> is_TFile c
                \<and> (childPath p (node_name c), c) \<notin> set (acc @ findEmptyFolders p sub [])) sub)
         \<longleftrightarrow> fileNodes [] sub = []"
proof
  assume chk: "\<not> list_ex is_TFile sub
          \<and> \<not> list_ex (\<lambda>c. \<not> is_TFile c
                \<and> (childPath p (node_name c), c) \<notin> set (acc @ findEmptyFolders p sub [])) sub"
  have "list_all (\<lambda>(q, n). holds_no_file n) (findEmptyFolders p sub [])"
    by (rule findEmptyFolders_no_files) simp
  with assms have acc1: "list_all (\<lambda>(q, n). holds_no_file n) (acc @ findEmptyFolders p sub [])"
    by simp
  have "holds_no_file c" if "c \<in> set sub" for c
  proof (cases "is_TFile c")
    case True
    with chk that show ?thesis by (auto simp: list_ex_iff)
  next
    case False
    with chk that have "(childPath p (node_name c), c) \<in> set (acc @ findEmptyFolders p sub [])"
      by (auto simp: list_ex_iff)
    with acc1 show ?thesis unfolding list_all_iff by fastforce
  qed
  then show "fileNodes [] sub = []" by (simp add: fileNodes_Nil_iff list_all_iff)
next
  assume "fileNodes [] sub = []"
  then have free: "list_all holds_no_file sub" by (simp add: fileNodes_Nil_iff)
  then have nofiles: "\<not> list_ex is_TFile sub"
    using is_TFile_holds by (auto simp: list_ex_iff list_all_iff)
  have "(childPath p (node_name c), c) \<in> set (acc @ findEmptyFolders p sub [])"
    if "c \<in> set sub" "\<not> is_TFile c" for c
  proof -
    from that(2) obtain n s where c: "c = TFolder n s" by (cases c) auto
    from free that(1) have "holds_no_file c" by (simp add: list_all_iff)
    from findEmptyFolders_complete [of n s sub p "[]"] that(1) this c show ?thesis by simp
  qed
  with nofiles show "\<not> list_ex is_TFile sub
          \<and> \<not> list_ex (\<lambda>c. \<not> is_TFile c
                \<and> (childPath p (node_name c), c) \<notin> set (acc @ findEmptyFolders p sub [])) sub"
    by (auto simp: list_ex_iff)
qed

lemma findEmptyFolders_paths:
  "wf_nodes cs \<Longrightarrow> fp \<noteq> [] \<Longrightarrow> fp \<noteq> ''/''
   \<Longrightarrow> list_all (\<lambda>(q, n). holds_no_file n) acc
   \<Longrightarrow> map (\<lambda>(q, n). splitOn (CHR ''/'') q) (findEmptyFolders fp cs acc)
       = map (\<lambda>(q, n). splitOn (CHR ''/'') q) acc
         @ map ((@) (splitOn (CHR ''/'') fp)) (emptyPaths cs)"
proof (induction fp cs acc rule: findEmptyFolders.induct)
  case (1 fp acc)
  show ?case by simp
next
  case (2 fp nm c cs acc)
  then show ?case by simp
next
  case (3 fp nm sub cs acc)
  let ?p = "childPath fp nm"
  let ?acc1 = "acc @ findEmptyFolders ?p sub []"
  let ?hasFiles = "list_ex is_TFile sub"
  let ?hasNonEmpty = "list_ex (\<lambda>c. \<not> is_TFile c \<and> (childPath ?p (node_name c), c) \<notin> set ?acc1) sub"
  let ?S = "splitOn (CHR ''/'') fp"
  let ?sp = "\<lambda>(q, n :: node). splitOn (CHR ''/'') q"
  define pushed where "pushed \<longleftrightarrow> \<not> ?hasFiles \<and> \<not> ?hasNonEmpty"
  define nxt where "nxt = (if pushed then ?acc1 @ [(?p, TFolder nm sub)] else ?acc1)"
  from "3.prems"(1) have wf: "wf_nodes cs" and wf_sub: "wf_nodes sub" and ok: "ok_name nm"
    by simp_all
  from "3.prems"(3) have p: "?p = fp @ ''/'' @ nm" by (simp add: childPath_def)
  with "3.prems"(2) have p_ok: "?p \<noteq> []" "?p \<noteq> ''/''" by (cases fp; simp)+
  have seg: "splitOn (CHR ''/'') ?p = ?S @ [nm]"
    by (rule splitOn_childPath [OF "3.prems"(3) ok])
  have unfold: "findEmptyFolders fp (TFolder nm sub # cs) acc = findEmptyFolders fp cs nxt"
    by (simp add: Let_def nxt_def pushed_def)
  have inner: "map ?sp (findEmptyFolders ?p sub []) = map ((@) (?S @ [nm])) (emptyPaths sub)"
    using "3.IH"(1) [OF refl wf_sub p_ok] seg by simp
  have inner_free: "list_all (\<lambda>(q, n). holds_no_file n) (findEmptyFolders ?p sub [])"
    by (rule findEmptyFolders_no_files) simp
  with "3.prems"(4) have acc1_free: "list_all (\<lambda>(q, n). holds_no_file n) ?acc1" by simp
  have chk: "pushed \<longleftrightarrow> fileNodes [] sub = []"
    unfolding pushed_def by (rule findEmptyFolders_check [OF "3.prems"(4)])
  have next_free: "list_all (\<lambda>(q, n). holds_no_file n) nxt"
  proof (cases pushed)
    case True
    with chk have "holds_no_file (TFolder nm sub)"
      by (simp add: holds_no_file_folder fileNodes_Nil_iff)
    with acc1_free True show ?thesis by (simp add: nxt_def)
  next
    case False
    with acc1_free show ?thesis by (simp add: nxt_def)
  qed
  have next_paths: "map ?sp nxt = map ?sp acc
      @ map ((@) ?S) (map ((#) nm) (emptyPaths sub) @ (if fileNodes [] sub = [] then [[nm]] else []))"
  proof (cases pushed)
    case True
    with chk inner seg show ?thesis by (simp add: nxt_def)
  next
    case False
    with chk inner show ?thesis by (simp add: nxt_def)
  qed
  have "map ?sp (findEmptyFolders fp cs nxt) = map ?sp nxt @ map ((@) ?S) (emptyPaths cs)"
    using "3.IH"(2) [OF refl refl refl refl wf "3.prems"(2,3)] next_free
    by (simp add: nxt_def pushed_def)
  with unfold next_paths show ?case by simp
qed

lemma modify_single_id:
  assumes "\<And>nm sub. find (\<lambda>n. node_name n = s) v = Some (TFolder nm sub) \<Longrightarrow> f sub = sub"
  shows "modify [s] f v = v"
  using assms
proof (induction v)
  case Nil
  show ?case by simp
next
  case (Cons n v)
  show ?case
  proof (cases "node_name n = s")
    case True
    with Cons.prems [of "node_name n"] show ?thesis by (cases n) simp_all
  next
    case False
    with Cons.prems have "\<And>nm sub. find (\<lambda>n. node_name n = s) v = Some (TFolder nm sub) \<Longrightarrow> f sub = sub"
      by simp
    from Cons.IH [OF this] False show ?thesis by (cases n) simp_all
  qed
qed

lemma remove_named_absent:
  "find (\<lambda>n. node_name n = s) v = None \<Longrightarrow> remove_named s v = v"
  by (induction v) (auto split: if_splits)

lemma remove_at_absent:
  "segs \<noteq> [] \<Longrightarrow> lookup v segs = None \<Longrightarrow> remove_at segs v = v"
proof (induction segs arbitrary: v)
  case Nil
  then show ?case by simp
next
  case (Cons s ss)
  show ?case
  proof (cases "ss = []")
    case True
    with Cons.prems(2) show ?thesis
      by (simp add: remove_at_single remove_named_absent)
  next
    case False
    have "remove_at ss sub = sub" if "find (\<lambda>n. node_name n = s) v = Some (TFolder nm sub)" for nm sub
    proof -
      from lookup_find_TFolder [OF that, of ss] False Cons.prems(2) have "lookup sub ss = None"
        by simp
      from Cons.IH [OF False this] show ?thesis .
    qed
    then have "modify [s] (remove_at ss) v = v" by (rule modify_single_id)
    with False show ?thesis by (simp add: remove_at_Cons)
  qed
qed

lemma delete_vault_eq:
  assumes "denied h = []"
  shows "vault (snd (delete q folder h)) = remove_at (splitOn (CHR ''/'') q) (vault h)
       \<and> denied (snd (delete q folder h)) = []"
proof (cases "exists_path h q")
  case True
  with assms show ?thesis
    by (simp add: delete_def Let_def issue_def remove_at_def)
next
  case False
  then have "lookup (vault h) (splitOn (CHR ''/'') q) = None"
    by (simp add: exists_path_def getAbstractFileByPath_def)
  from remove_at_absent [OF splitOn_not_Nil this] False assms show ?thesis
    by (simp add: delete_def Let_def issue_def)
qed

lemma delete_loop_vault:
  "denied h = []
   \<Longrightarrow> vault (snd (delete_loop es k h))
       = foldl (\<lambda>v segs. remove_at segs v) (vault h) (map (\<lambda>(q, n). splitOn (CHR ''/'') q) es)"
proof (induction es k h rule: delete_loop.induct)
  case (1 k h)
  show ?case by simp
next
  case (2 q folder rest k h)
  obtain r h' where d: "delete q folder h = (r, h')" by (cases "delete q folder h") auto
  from delete_vault_eq [OF "2.prems", of q folder] d
  have v': "vault h' = remove_at (splitOn (CHR ''/'') q) (vault h)" and den: "denied h' = []"
    by simp_all
  show ?case
  proof (cases r)
    case (Inl e)
    from "2.IH"(1) [OF d [symmetric] Inl den] d Inl v' show ?thesis by simp
  next
    case (Inr u)
    from "2.IH"(2) [OF d [symmetric] Inr den] d Inr v' show ?thesis by simp
  qed
qed

lemma modify_append: "modify (r @ t) f v = modify r (modify t f) v"
proof (induction r arbitrary: v)
  case Nil
  show ?case by simp
next
  case (Cons s ss)
  show ?case
  proof (induction v)
    case Nil
    show ?case by simp
  next
    case (Cons n v)
    with \<open>\<And>v. modify (ss @ t) f v = modify ss (modify t f) v\<close> show ?case
      by (cases n) simp_all
  qed
qed

lemma modify_modify: "modify r f (modify r g v) = modify r (\<lambda>c. f (g c)) v"
proof (induction r arbitrary: v)
  case Nil
  show ?case by simp
next
  case (Cons s ss)
  show ?case
  proof (induction v)
    case Nil
    show ?case by simp
  next
    case (Cons n v)
    with \<open>\<And>v. modify ss f (modify ss g v) = modify ss (\<lambda>c. f (g c)) v\<close> show ?case
      by (cases n) simp_all
  qed
qed

lemma modify_id: "modify r (\<lambda>c. c) v = v"
proof (induction r arbitrary: v)
  case Nil
  show ?case by simp
next
  case (Cons s ss)
  show ?case
  proof (induction v)
    case Nil
    show ?case by simp
  next
    case (Cons n v)
    with \<open>\<And>v. modify ss (\<lambda>c. c) v = v\<close> show ?case
      by (cases n) simp_all
  qed
qed

lemma remove_at_append:
  assumes "ns \<noteq> []"
  shows "remove_at (r @ ns) v = modify r (remove_at ns) v"
proof -
  have "butlast (r @ ns) = r @ butlast ns" "last (r @ ns) = last ns"
    using assms by (simp_all add: butlast_append)
  then have "remove_at (r @ ns) v = modify (r @ butlast ns) (remove_named (last ns)) v"
    by (simp add: remove_at_def)
  also have "\<dots> = modify r (modify (butlast ns) (remove_named (last ns))) v"
    by (rule modify_append)
  finally show ?thesis
    by (simp add: remove_at_def [abs_def])
qed

lemma foldl_remove_at_path_below:
  "(\<And>ns. ns \<in> set l \<Longrightarrow> ns \<noteq> [])
   \<Longrightarrow> foldl (\<lambda>v segs. remove_at segs v) v (map ((@) r) l)
       = modify r (\<lambda>c. foldl (\<lambda>c ns. remove_at ns c) c l) v"
proof (induction l arbitrary: v)
  case Nil
  show ?case by (simp add: modify_id)
next
  case (Cons ns l)
  from Cons.prems [of ns] have "ns \<noteq> []" by simp
  from remove_at_append [OF this, of r v]
  have "foldl (\<lambda>v segs. remove_at segs v) v (map ((@) r) (ns # l))
      = foldl (\<lambda>v segs. remove_at segs v) (modify r (remove_at ns) v) (map ((@) r) l)"
    by simp
  also have "\<dots> = modify r (\<lambda>c. foldl (\<lambda>c ns. remove_at ns c) c l) (modify r (remove_at ns) v)"
    by (rule Cons.IH) (use Cons.prems in simp)
  also have "\<dots> = modify r (\<lambda>c. foldl (\<lambda>c ns. remove_at ns c) (remove_at ns c) l) v"
    by (rule modify_modify)
  finally show ?case by simp
qed

lemma cleanEmptyDirectories_prev_prunes:
  assumes "wf_nodes (vault h)" and "denied h = []"
    and "getAbstractFileByPath h (attachmentPath settings) = Some (TFolder nm cs)"
  shows "getAbstractFileByPath (cleanEmptyDirectories_prev settings h) (attachmentPath settings)
           = Some (TFolder nm (prune cs))"
proof -
  let ?p = "attachmentPath settings"
  let ?r = "splitOn (CHR ''/'') ?p"
  let ?rm = "\<lambda>c ns. remove_at ns c"
  from assms(3) have res: "lookup (vault h) ?r = Some (TFolder nm cs)"
    by (simp add: getAbstractFileByPath_def)
  have p_ne: "?p \<noteq> []"
  proof
    assume "?p = []"
    with res have "find (\<lambda>n. node_name n = []) (vault h) = Some (TFolder nm cs)" by simp
    from wf_find_ok [OF assms(1) this] show False by (simp add: ok_name_def)
  qed
  have p_root: "?p \<noteq> ''/''"
  proof
    assume "?p = ''/''"
    with res obtain n where "find (\<lambda>n. node_name n = []) (vault h) = Some n"
      by (auto split: option.splits)
    from wf_find_ok [OF assms(1) this] show False by (simp add: ok_name_def)
  qed
  have wf_cs: "wf_nodes cs" by (rule wf_lookup [OF assms(1) res])
  let ?found = "findEmptyFolders ?p cs []"
  have paths: "map (\<lambda>(q, n). splitOn (CHR ''/'') q) ?found = map ((@) ?r) (emptyPaths cs)"
    using findEmptyFolders_paths [OF wf_cs p_ne p_root, of "[]"] by simp
  have "vault (snd (delete_loop (rev ?found) 0 h))
      = foldl (\<lambda>v segs. remove_at segs v) (vault h) (map ((@) ?r) (rev (emptyPaths cs)))"
    using delete_loop_vault [OF assms(2), of "rev ?found" 0] paths
    by (simp add: rev_map [symmetric])
  also have "\<dots> = modify ?r (\<lambda>c. foldl ?rm c (rev (emptyPaths cs))) (vault h)"
    by (rule foldl_remove_at_path_below) (use emptyPaths_hd [of _ cs] in auto)
  finally have v': "vault (snd (delete_loop (rev ?found) 0 h))
      = modify ?r (\<lambda>c. foldl ?rm c (rev (emptyPaths cs))) (vault h)" .
  from lookup_modify [OF res, of "\<lambda>c. foldl ?rm c (rev (emptyPaths cs))"]
    foldl_emptyPaths_prune [OF wf_cs]
  have "lookup (modify ?r (\<lambda>c. foldl ?rm c (rev (emptyPaths cs))) (vault h)) ?r
      = Some (TFolder nm (prune cs))" by simp
  with v' assms(3) show ?thesis
    by (cases "delete_loop (rev ?found) 0 h")
      (simp add: cleanEmptyDirectories_prev_def getAbstractFileByPath_def Let_def notify_def)
qed

lemma cleanEmptyDirectories_prev_fixpoint:
  assumes "wf_nodes (vault h)" and "denied h = []"
    and "getAbstractFileByPath h (attachmentPath settings) = Some (TFolder nm cs)"
  shows "\<exists>cs'. getAbstractFileByPath (cleanEmptyDirectories_prev settings h) (attachmentPath settings)
           = Some (TFolder nm cs') \<and> \<not> has_prunable cs'"
  using cleanEmptyDirectories_prev_prunes [OF assms] prune_no_prunable [of cs] by simp

subsection \<open>Pruning: the claims\<close>

text \<open>
  C6. \<^verbatim>\<open>cleanEmptyDirectories\<close> deletes no file: every file of the vault is at its path
  with its content afterwards, whatever the path given and whether or not a delete is
  refused; and every call the run issues is a delete of a folder that holds nothing when
  it is passed to the host. In the earlier revision every folder passed to the host is
  one below which there is no file, and on a tree as a file system has it every file is
  at its path with its content afterwards.
\<close>

theorem cleanEmptyDirectories_deletes_no_file:
  "fileNodes ''/'' (vault (snd (cleanEmptyDirectories p h))) = fileNodes ''/'' (vault h)
   \<and> only_empty_deletes (calls h) (calls (snd (cleanEmptyDirectories p h)))
   \<and> (wf_nodes (vault h) \<longrightarrow>
        fileNodes ''/'' (vault (cleanEmptyDirectories_prev settings h)) = fileNodes ''/'' (vault h))
   \<and> (\<exists>es. calls (cleanEmptyDirectories_prev settings h)
               = calls h @ map (\<lambda>(q, folder). Delete q folder) es
           \<and> list_all (\<lambda>(q, folder). holds_no_file folder) es)"
  using cleanEmptyDirectories_files_and_calls [of p h]
    cleanEmptyDirectories_prev_keeps_files [of h "''/''" settings]
    cleanEmptyDirectories_prev_deletes [of settings h]
  by (intro conjI impI) simp_all

theorem cleanEmptyDirectories_deletes_no_file_witness:
  "fileNodes ''/'' (vault (snd (cleanEmptyDirectories ''Attachments'' (host_of vault_mixed))))
     = [(''Attachments/a.png'', Some [1, 2, 3]), (''Attachments/x/b.png'', Some [161]),
        (''note.md'', Some [])]
   \<and> only_empty_deletes [] (calls (snd (cleanEmptyDirectories ''Attachments'' (host_of vault_mixed))))
   \<and> wf_nodes (vault (host_of vault_mixed))
   \<and> fileNodes ''/'' (vault (cleanEmptyDirectories_prev demo_settings_prev (host_of vault_mixed)))
     = [(''Attachments/a.png'', Some [1, 2, 3]), (''Attachments/x/b.png'', Some [161]),
        (''note.md'', Some [])]"
proof -
  have wf: "wf_nodes (vault (host_of vault_mixed))"
    by (simp add: host_of_def vault_mixed_def ok_name_def)
  have files: "fileNodes ''/'' (vault (host_of vault_mixed))
     = [(''Attachments/a.png'', Some [1, 2, 3]), (''Attachments/x/b.png'', Some [161]),
        (''note.md'', Some [])]"
    by (simp add: host_of_def vault_mixed_def childPath_def)
  have c: "calls (host_of vault_mixed) = []"
    by (simp add: host_of_def)
  from cleanEmptyDirectories_deletes_no_file
    [of "''Attachments''" "host_of vault_mixed" demo_settings_prev] wf files c
  show ?thesis by simp
qed

text \<open>
  C7, as the claim states it, fails: on an attachment folder that holds nothing the run
  leaves the folder where it is.
\<close>

theorem cleanEmptyDirectories_root_removed_counterexample:
  "\<not> (getAbstractFileByPath
         (snd (cleanEmptyDirectories ''Attachments'' (host_of vault_empty_root))) ''Attachments''
       = None)"
  by code_simp

text \<open>
  C7, amended. \<^verbatim>\<open>cleanEmptyDirectories\<close> never removes the root folder itself: only
  the children of the root and the folders below them are passed to the walk, so a root
  path that resolves to a folder before the run resolves to a folder after it. The
  earlier revision keeps the root as well: \<^verbatim>\<open>findEmptyFolders\<close> lists paths below
  the root only.
\<close>

theorem cleanEmptyDirectories_keeps_root:
  assumes "folder_at h p"
  shows "folder_at (snd (cleanEmptyDirectories p h)) p
       \<and> (attachmentPath settings = p \<and> p \<noteq> [] \<and> p \<noteq> ''/''
          \<longrightarrow> folder_at (cleanEmptyDirectories_prev settings h) p)"
  using cleanEmptyDirectories_root_stays [OF assms]
    cleanEmptyDirectories_prev_keeps_root [of h settings] assms
  by auto

theorem cleanEmptyDirectories_keeps_root_witness:
  "folder_at (host_of vault_empty_root) ''Attachments''
   \<and> folder_at (snd (cleanEmptyDirectories ''Attachments'' (host_of vault_empty_root))) ''Attachments''
   \<and> attachmentPath demo_settings_prev = ''Attachments''
   \<and> folder_at (cleanEmptyDirectories_prev demo_settings_prev (host_of vault_empty_root)) ''Attachments''
   \<and> folder_at (host_of vault_siblings) ''Attachments''
   \<and> folder_at (snd (cleanEmptyDirectories ''Attachments'' (host_of vault_siblings))) ''Attachments''
   \<and> folder_at (cleanEmptyDirectories_prev demo_settings_prev (host_of vault_siblings)) ''Attachments''"
proof -
  have a: "folder_at (host_of vault_empty_root) ''Attachments''"
    by (simp add: folder_at_def getAbstractFileByPath_def host_of_def vault_empty_root_def)
  have b: "folder_at (host_of vault_siblings) ''Attachments''"
    by (simp add: folder_at_def getAbstractFileByPath_def host_of_def vault_siblings_def)
  have p: "attachmentPath demo_settings_prev = ''Attachments''"
    by (simp add: demo_settings_prev_def)
  from cleanEmptyDirectories_keeps_root [OF a, of demo_settings_prev]
    cleanEmptyDirectories_keeps_root [OF b, of demo_settings_prev] a b p
  show ?thesis by simp
qed

text \<open>
  C5. With two empty folders side by side the walk deletes the first and never looks at
  the second: the delete takes the first folder out of the live \<^verbatim>\<open>children\<close> array,
  the second moves to index 0, and the iterator goes on at index 1. No delete is
  refused, and still an empty folder is left below the root after the pass.
\<close>

theorem cleanEmptyDirectories_skips_sibling:
  "cleanEmptyDirectories ''Attachments'' (host_of vault_siblings)
     = (Inr (), \<lparr>vault = [TFolder ''Attachments'' [TFolder ''a2'' []]], denied = [],
                  notices = [Removed 1],
                  calls = [Delete ''Attachments/a1'' (TFolder ''a1'' [])]\<rparr>)
   \<and> getAbstractFileByPath
         (snd (cleanEmptyDirectories ''Attachments'' (host_of vault_siblings))) ''Attachments''
       = Some (TFolder ''Attachments'' [TFolder ''a2'' []])
   \<and> has_prunable [TFolder ''a2'' []]"
  by code_simp

text \<open>
  The earlier revision lists the folders first and deletes them afterwards. On a tree
  as a file system has it, and when no delete is refused, it leaves no folder below the
  root under which there is no file (\<open>cleanEmptyDirectories_prev_fixpoint\<close>); on the
  vault above it removes both folders.
\<close>

lemma cleanEmptyDirectories_prev_siblings:
  "cleanEmptyDirectories_prev demo_settings_prev (host_of vault_siblings)
     = \<lparr>vault = [TFolder ''Attachments'' []], denied = [], notices = [Removed 2],
        calls = [Delete ''Attachments/a2'' (TFolder ''a2'' []),
                 Delete ''Attachments/a1'' (TFolder ''a1'' [])]\<rparr>"
  by code_simp

lemma cleanEmptyDirectories_prev_empty_root:
  "cleanEmptyDirectories_prev demo_settings_prev (host_of vault_empty_root)
     = host_of vault_empty_root"
  by code_simp

subsection \<open>The batch\<close>






lemma organizeFile_read_fault:
  assumes "readBinary h file = Inl e"
  shows "organizeFile api file settings h = Some (Inl e, issue (ReadBinary file) h)"
  using assms by (simp add: organizeFile_def cksum_def)


lemma organize_loop_append:
  "organize_loop api settings (xs @ ys) n h =
     (case organize_loop api settings xs n h of
        None \<Rightarrow> None
      | Some (Inl e, h1) \<Rightarrow> Some (Inl e, h1)
      | Some (Inr m, h1) \<Rightarrow> organize_loop api settings ys m h1)"
  by (induction xs arbitrary: n h) (auto split: option.splits sum.splits)

lemma organized_in_order_append:
  "organized_in_order api settings (xs @ ys) h =
     (case organized_in_order api settings xs h of
        None \<Rightarrow> None
      | Some h1 \<Rightarrow> organized_in_order api settings ys h1)"
  by (induction xs arbitrary: h) (auto split: option.splits sum.splits)




text \<open>
  C9. When the root path does not resolve to a folder (nothing is there, or a file is),
  \<^verbatim>\<open>organizeAttachments\<close> shows "Attachment folder not found" and returns normally:
  the tree is as before and no call was issued to the host. \<^verbatim>\<open>cleanEmptyDirectories\<close>
  on such a path changes nothing at all.
\<close>

theorem organizeAttachments_root_absent:
  assumes "\<not> folder_at h (attachmentPath settings)"
  shows "organizeAttachments api settings h
           = Some (Inr (), h\<lparr>notices := notices h @ [Organizing, NotFound]\<rparr>)
         \<and> cleanEmptyDirectories (attachmentPath settings) h = (Inr (), h)"
proof -
  have a: "\<not> folder_at (notify Organizing h) (attachmentPath settings)"
    using assms by (simp add: folder_at_notify)
  have "organizeAttachments api settings h = Some (Inr (), notify NotFound (notify Organizing h))"
    using a unfolding organizeAttachments_def folder_at_def Let_def
    by (auto split: option.splits node.splits)
  moreover have "cleanEmptyDirectories (attachmentPath settings) h = (Inr (), h)"
    using assms by (rule cleanEmptyDirectories_no_folder)
  ultimately show ?thesis
    by (simp add: notify_def)
qed

theorem organizeAttachments_root_absent_witness:
  "\<not> folder_at (host_of vault_empty_root) (attachmentPath (demo_settings\<lparr>attachmentPath := ''Missing''\<rparr>))
   \<and> organizeAttachments sum_api (demo_settings\<lparr>attachmentPath := ''Missing''\<rparr>) (host_of vault_empty_root)
       = Some (Inr (), \<lparr>vault = vault_empty_root, denied = [], notices = [Organizing, NotFound], calls = []\<rparr>)
   \<and> \<not> folder_at (host_of vault_empty_root) (attachmentPath (demo_settings\<lparr>attachmentPath := ''note.md''\<rparr>))
   \<and> organizeAttachments sum_api (demo_settings\<lparr>attachmentPath := ''note.md''\<rparr>) (host_of vault_empty_root)
       = Some (Inr (), \<lparr>vault = vault_empty_root, denied = [], notices = [Organizing, NotFound], calls = []\<rparr>)"
proof -
  have a: "\<not> folder_at (host_of vault_empty_root) (attachmentPath (demo_settings\<lparr>attachmentPath := ''Missing''\<rparr>))"
    by (simp add: folder_at_def getAbstractFileByPath_def host_of_def vault_empty_root_def)
  have b: "\<not> folder_at (host_of vault_empty_root) (attachmentPath (demo_settings\<lparr>attachmentPath := ''note.md''\<rparr>))"
    by (simp add: folder_at_def getAbstractFileByPath_def host_of_def vault_empty_root_def)
  from organizeAttachments_root_absent [OF a, of sum_api]
    organizeAttachments_root_absent [OF b, of sum_api] a b
  show ?thesis by (simp add: host_of_def)
qed




text \<open>
  C4, as the claim states it, fails: the first file cannot be read, the fault leaves
  \<^verbatim>\<open>organizeFile\<close> and \<^verbatim>\<open>organizeAttachments\<close>, and the second file is neither read
  nor moved nor counted.
\<close>

theorem organizeAttachments_isolation_counterexample:
  "organizeAttachments sum_api demo_settings (host_of vault_unreadable)
     = Some (Inl ReadFault,
             \<lparr>vault = vault_unreadable, denied = [], notices = [Organizing],
                calls = [ReadBinary ''Attachments/a.png'']\<rparr>)"
  by code_simp

text \<open>
  C4, amended. Nothing in \<^verbatim>\<open>organizeFile\<close> or \<^verbatim>\<open>organizeAttachments\<close> catches a
  failed checksum read: when the files before it in the worklist have been processed
  and the read of the next file fails, the batch ends there with that fault. The files
  after it are not processed, no count is shown and no pruning runs.
\<close>

theorem organizeAttachments_read_fault_aborts:
  assumes "getAbstractFileByPath h (attachmentPath settings) = Some (TFolder nm cs)"
    and "getFilesInFolder (attachmentPath settings) cs = before @ f # after"
    and "organize_loop api settings before 0 (notify Organizing h) = Some (Inr n, h1)"
    and "readBinary h1 f = Inl ReadFault"
  shows "organizeAttachments api settings h = Some (Inl ReadFault, issue (ReadBinary f) h1)"
proof -
  have res: "getAbstractFileByPath (notify Organizing h) (attachmentPath settings)
      = Some (TFolder nm cs)"
    using assms(1) by (simp add: getAbstractFileByPath_def notify_def)
  have "organize_loop api settings (f # after) n h1 = Some (Inl ReadFault, issue (ReadBinary f) h1)"
    using organizeFile_read_fault [OF assms(4), of api settings] by simp
  with assms(3) have "organize_loop api settings (before @ f # after) 0 (notify Organizing h)
      = Some (Inl ReadFault, issue (ReadBinary f) h1)"
    by (simp add: organize_loop_append)
  with res assms(2) show ?thesis
    by (simp add: organizeAttachments_def)
qed

theorem organizeAttachments_read_fault_aborts_witness:
  "getAbstractFileByPath (host_of vault_unreadable) (attachmentPath demo_settings)
     = Some (TFolder ''Attachments'' [TFile ''a.png'' None, TFile ''b.png'' (Some [161])])
   \<and> getFilesInFolder (attachmentPath demo_settings)
        [TFile ''a.png'' None, TFile ''b.png'' (Some [161])]
     = [] @ ''Attachments/a.png'' # [''Attachments/b.png'']
   \<and> organize_loop sum_api demo_settings [] 0 (notify Organizing (host_of vault_unreadable))
     = Some (Inr 0, notify Organizing (host_of vault_unreadable))
   \<and> readBinary (notify Organizing (host_of vault_unreadable)) ''Attachments/a.png'' = Inl ReadFault
   \<and> organizeAttachments sum_api demo_settings (host_of vault_unreadable)
     = Some (Inl ReadFault,
             issue (ReadBinary ''Attachments/a.png'') (notify Organizing (host_of vault_unreadable)))"
proof -
  have a: "getAbstractFileByPath (host_of vault_unreadable) (attachmentPath demo_settings)
     = Some (TFolder ''Attachments'' [TFile ''a.png'' None, TFile ''b.png'' (Some [161])])"
    by (simp add: getAbstractFileByPath_def host_of_def vault_unreadable_def demo_settings_def)
  have b: "getFilesInFolder (attachmentPath demo_settings)
        [TFile ''a.png'' None, TFile ''b.png'' (Some [161])]
     = [] @ ''Attachments/a.png'' # [''Attachments/b.png'']"
    by (simp add: demo_settings_def childPath_def)
  have c: "organize_loop sum_api demo_settings [] 0 (notify Organizing (host_of vault_unreadable))
     = Some (Inr 0, notify Organizing (host_of vault_unreadable))"
    by simp
  have d: "readBinary (notify Organizing (host_of vault_unreadable)) ''Attachments/a.png''
     = Inl ReadFault"
    by (simp add: readBinary_def getAbstractFileByPath_def notify_def host_of_def
        vault_unreadable_def)
  from organizeAttachments_read_fault_aborts [OF a b c d] a b c d show ?thesis
    by (intro conjI)
qed

text \<open>
  The earlier revision catches the fault inside \<^verbatim>\<open>organizeFile\<close>: on the same vault
  it shows the failure of the first file, goes on to the second file, moves it, and
  counts both.
\<close>

lemma organizeAttachments_prev_goes_on:
  "organizeAttachments_prev sum_api demo_settings_prev (host_of vault_unreadable)
     = Some \<lparr>vault = [TFolder ''Attachments''
                        [TFile ''a.png'' None,
                         TFolder ''a1'' [TFolder ''a1'' [TFile ''b.png'' (Some [161])]]]],
               denied = [],
               notices = [Organizing, ErrorOrganizingFile ''a.png'' ReadFault, Organized 2],
               calls = [ReadBinary ''Attachments/a.png'', ReadBinary ''Attachments/b.png'',
                        CreateFolder ''Attachments/a1'', CreateFolder ''Attachments/a1/a1'',
                        Rename ''Attachments/b.png'' ''Attachments/a1/a1/b.png'']\<rparr>"
  by code_simp

end
